theory Spec2Isabelle
  imports Main
begin

text \<open>
  A model of \<^verbatim>\<open>src/app.py\<close>, a relay of five tools to one upstream service: the content
  normalizer \<^verbatim>\<open>format_content\<close>, the connection scope \<^verbatim>\<open>AWSClientContext\<close> and the five tool
  handlers, with the parts of Python's \<^verbatim>\<open>json\<close> module they call. Exceptions are values of a
  sum type (\<open>Inl\<close> the exception raised), the connection state is passed explicitly, the
  upstream service is a record of what it answers, and what the program observes of the
  interpreter (the text of a float, the recursion depth left to the decoder) is a record
  too.
\<close>

section \<open>Python strings and JSON values\<close>

text \<open>
  A Python \<^verbatim>\<open>str\<close> is a sequence of Unicode code points; it is modelled as a list of
  natural numbers (the code points), since the JSON codec escapes and joins code points
  above the 8-bit range. \<open>str\<close> turns an ASCII literal into such a string.
\<close>

type_synonym pystr = "nat list"

definition str :: "string \<Rightarrow> pystr" where
  "str s = map of_char s"

text \<open>
  The values \<^verbatim>\<open>json.loads\<close> produces: \<^verbatim>\<open>None\<close>, booleans, integers, floats, strings,
  lists and dictionaries with string keys. A dictionary is an association list in
  insertion order. A float is kept as the number token it was read from (Python's
  \<^verbatim>\<open>float(token)\<close> is not computed); the three constants of the decoder are separate.
\<close>

datatype pyfloat = FloatLit pystr | NaN | PosInf | NegInf

datatype pyval =
    PyNone
  | PyBool bool
  | PyInt int
  | PyFloat pyfloat
  | PyStr pystr
  | PyList "pyval list"
  | PyDict "(pystr \<times> pyval) list"

text \<open>Dictionary operations: \<^verbatim>\<open>d.get(k)\<close>, \<^verbatim>\<open>d[k] = v\<close>, \<^verbatim>\<open>d.pop(k, None)\<close>, \<^verbatim>\<open>dict(pairs)\<close>.\<close>

definition dict_get :: "(pystr \<times> 'v) list \<Rightarrow> pystr \<Rightarrow> 'v option" where
  "dict_get d k = map_of d k"

fun dict_set :: "(pystr \<times> 'v) list \<Rightarrow> pystr \<Rightarrow> 'v \<Rightarrow> (pystr \<times> 'v) list" where
  "dict_set [] k v = [(k, v)]"
| "dict_set (p # ps) k v = (if fst p = k then (k, v) # ps else p # dict_set ps k v)"

definition dict_pop :: "(pystr \<times> 'v) list \<Rightarrow> pystr \<Rightarrow> (pystr \<times> 'v) list" where
  "dict_pop d k = filter (\<lambda>p. fst p \<noteq> k) d"

definition dict :: "(pystr \<times> 'v) list \<Rightarrow> (pystr \<times> 'v) list" where
  "dict pairs = foldl (\<lambda>d (k, v). dict_set d k v) [] pairs"

text \<open>\<^verbatim>\<open>sep.join(xs)\<close>\<close>

fun join :: "pystr \<Rightarrow> pystr list \<Rightarrow> pystr" where
  "join sep [] = []"
| "join sep [x] = x"
| "join sep (x # y # ys) = x @ sep @ join sep (y # ys)"

text \<open>
  Exceptions, each with the text \<^verbatim>\<open>str(e)\<close> gives. The position report in the message
  of a \<^verbatim>\<open>JSONDecodeError\<close> is not modelled (both places that decode catch it and drop it).
  \<^verbatim>\<open>ValueError\<close> and \<^verbatim>\<open>RecursionError\<close> are what the decoder raises at the limits of the
  interpreter; \<^verbatim>\<open>CancelledError\<close> is \<^verbatim>\<open>asyncio.CancelledError\<close>, which derives from
  \<^verbatim>\<open>BaseException\<close> and not from \<^verbatim>\<open>Exception\<close>. \<open>is_exception e\<close> is
  \<^verbatim>\<open>isinstance(e, Exception)\<close>, what a clause \<^verbatim>\<open>except Exception\<close> catches.
\<close>

datatype py_exn =
    JSONDecodeError pystr
  | TypeError pystr
  | ValueError pystr
  | RecursionError pystr
  | McpError pystr
  | Exception pystr
  | CancelledError pystr

fun str_exn :: "py_exn \<Rightarrow> pystr" where
  "str_exn (JSONDecodeError m) = m"
| "str_exn (TypeError m) = m"
| "str_exn (ValueError m) = m"
| "str_exn (RecursionError m) = m"
| "str_exn (McpError m) = m"
| "str_exn (Exception m) = m"
| "str_exn (CancelledError m) = m"

fun is_exception :: "py_exn \<Rightarrow> bool" where
  "is_exception (CancelledError m) = False"
| "is_exception e = True"

text \<open>
  The interpreter the program runs in, as far as the program can observe it: \<open>float_repr\<close>
  stands for Python's \<^verbatim>\<open>float.__repr__(float(token))\<close> on the text of a number token (or
  \<^verbatim>\<open>Infinity\<close>, \<^verbatim>\<open>-Infinity\<close> when the token overflows), and \<open>recursion_depth\<close> is the number of
  nested arrays and objects the decoder can enter before the interpreter's recursion limit
  is reached (what is left of \<^verbatim>\<open>sys.getrecursionlimit()\<close>, 1000 by default, at the call of
  \<^verbatim>\<open>json.loads\<close>).
\<close>

record interp =
  float_repr :: "pystr \<Rightarrow> pystr"
  recursion_depth :: nat

section \<open>\<^verbatim>\<open>json.dumps(obj, indent=2)\<close>\<close>

text \<open>
  The encoder, on the values the decoder produces. The program renders only values that
  \<^verbatim>\<open>json.loads\<close> has returned; the limits of the interpreter are modelled where they first
  apply, in the decoder, and not again in the encoder.
\<close>

function nat_digits :: "nat \<Rightarrow> pystr" where
  "nat_digits n = (if n < 10 then [48 + n] else nat_digits (n div 10) @ [48 + n mod 10])"
  by pat_completeness auto
termination
  by (relation "measure id") auto

declare nat_digits.simps [simp del]

definition int_repr :: "int \<Rightarrow> pystr" where
  "int_repr i = (if i < 0 then 45 # nat_digits (nat (- i)) else nat_digits (nat i))"

definition hexdigit :: "nat \<Rightarrow> nat" where
  "hexdigit d = (if d < 10 then 48 + d else 87 + d)"

definition u_escape :: "nat \<Rightarrow> pystr" where
  "u_escape n = [92, 117, hexdigit (n div 4096 mod 16), hexdigit (n div 256 mod 16),
                 hexdigit (n div 16 mod 16), hexdigit (n mod 16)]"

text \<open>
  The encoder with \<^verbatim>\<open>ensure_ascii\<close> (the default): the quote, the backslash and the five
  short escapes, printable ASCII as it is, everything else as \<^verbatim>\<open>\uXXXX\<close>, a code point
  above \<^verbatim>\<open>0xFFFF\<close> as a surrogate pair.
\<close>

definition escape_char :: "nat \<Rightarrow> pystr" where
  "escape_char c =
    (if c = 34 then [92, 34]
     else if c = 92 then [92, 92]
     else if c = 10 then [92, 110]
     else if c = 13 then [92, 114]
     else if c = 9 then [92, 116]
     else if c = 8 then [92, 98]
     else if c = 12 then [92, 102]
     else if 32 \<le> c \<and> c \<le> 126 then [c]
     else if c < 65536 then u_escape c
     else u_escape (55296 + (c - 65536) div 1024 mod 1024)
          @ u_escape (56320 + (c - 65536) mod 1024))"

definition encode_basestring_ascii :: "pystr \<Rightarrow> pystr" where
  "encode_basestring_ascii s = 34 # concat (map escape_char s) @ [34]"

text \<open>
  The text of a float: \<open>fr\<close> is the interpreter's \<open>float_repr\<close>, a parameter of the encoder.
\<close>

fun floatstr :: "(pystr \<Rightarrow> pystr) \<Rightarrow> pyfloat \<Rightarrow> pystr" where
  "floatstr fr (FloatLit l) = fr l"
| "floatstr fr NaN = str ''NaN''"
| "floatstr fr PosInf = str ''Infinity''"
| "floatstr fr NegInf = str ''-Infinity''"

text \<open>\<^verbatim>\<open>'\n' + _indent * _current_indent_level\<close>, with \<^verbatim>\<open>_indent\<close> two spaces.\<close>

definition newline_indent :: "nat \<Rightarrow> pystr" where
  "newline_indent level = 10 # concat (replicate level [32, 32])"

fun iterencode :: "(pystr \<Rightarrow> pystr) \<Rightarrow> nat \<Rightarrow> pyval \<Rightarrow> pystr" where
  "iterencode fr level PyNone = str ''null''"
| "iterencode fr level (PyBool b) = (if b then str ''true'' else str ''false'')"
| "iterencode fr level (PyInt i) = int_repr i"
| "iterencode fr level (PyFloat f) = floatstr fr f"
| "iterencode fr level (PyStr s) = encode_basestring_ascii s"
| "iterencode fr level (PyList lst) =
    (if lst = [] then str ''[]''
     else 91 # newline_indent (Suc level)
          @ join (44 # newline_indent (Suc level)) (map (iterencode fr (Suc level)) lst)
          @ newline_indent level @ [93])"
| "iterencode fr level (PyDict dct) =
    (if dct = [] then str ''{}''
     else 123 # newline_indent (Suc level)
          @ join (44 # newline_indent (Suc level))
              (map (\<lambda>(key, val).
                      encode_basestring_ascii key @ [58, 32] @ iterencode fr (Suc level) val) dct)
          @ newline_indent level @ [125])"

definition json_dumps :: "(pystr \<Rightarrow> pystr) \<Rightarrow> pyval \<Rightarrow> pystr" where
  "json_dumps fr obj = iterencode fr 0 obj"

section \<open>\<^verbatim>\<open>json.loads\<close>\<close>

text \<open>
  The decoder of Python's \<^verbatim>\<open>json\<close> module on a \<^verbatim>\<open>str\<close>, as a recursive-descent scanner over
  the remaining input. A scan gives \<open>Inr (v, rest)\<close>, a value and the input after it, or
  \<open>Inl e\<close>, the exception raised: a \<^verbatim>\<open>JSONDecodeError\<close> where the text is not JSON, a
  \<^verbatim>\<open>ValueError\<close> where an integer token has more digits than \<^verbatim>\<open>int\<close> converts, a
  \<^verbatim>\<open>RecursionError\<close> where arrays and objects are nested deeper than the interpreter allows.
  The first of them in the order of the scan is the one raised.
\<close>

definition is_ws :: "nat \<Rightarrow> bool" where
  "is_ws c = (c = 32 \<or> c = 9 \<or> c = 10 \<or> c = 13)"

fun skip_ws :: "pystr \<Rightarrow> pystr" where
  "skip_ws [] = []"
| "skip_ws (c # cs) = (if is_ws c then skip_ws cs else c # cs)"

definition is_digit :: "nat \<Rightarrow> bool" where
  "is_digit c = (48 \<le> c \<and> c \<le> 57)"

text \<open>
  Strings, as \<^verbatim>\<open>scanstring\<close> with \<^verbatim>\<open>strict=True\<close> reads them after the opening quote: a control
  character is refused; the escape \<^verbatim>\<open>u\<close> takes four hexadecimal digits, and a high surrogate followed by
  the escape of a low surrogate is joined with it to one code point.
\<close>

definition hexval :: "nat \<Rightarrow> nat option" where
  "hexval c =
    (if 48 \<le> c \<and> c \<le> 57 then Some (c - 48)
     else if 97 \<le> c \<and> c \<le> 102 then Some (c - 87)
     else if 65 \<le> c \<and> c \<le> 70 then Some (c - 55)
     else None)"

definition decode_uXXXX :: "pystr \<Rightarrow> nat option" where
  "decode_uXXXX s =
    (case map hexval (take 4 s) of
       [Some a, Some b, Some c, Some d] \<Rightarrow> Some (((a * 16 + b) * 16 + c) * 16 + d)
     | _ \<Rightarrow> None)"

definition backslash :: "nat \<Rightarrow> nat option" where
  "backslash e =
    (if e = 34 then Some 34
     else if e = 92 then Some 92
     else if e = 47 then Some 47
     else if e = 98 then Some 8
     else if e = 102 then Some 12
     else if e = 110 then Some 10
     else if e = 114 then Some 13
     else if e = 116 then Some 9
     else None)"

definition prepend :: "nat \<Rightarrow> (pystr \<times> pystr) option \<Rightarrow> (pystr \<times> pystr) option" where
  "prepend c r = (case r of None \<Rightarrow> None | Some (s, rest) \<Rightarrow> Some (c # s, rest))"

definition next_char :: "pystr \<Rightarrow> (nat \<times> pystr) option" where
  "next_char s =
    (case s of
       [] \<Rightarrow> None
     | c # cs \<Rightarrow>
        if c = 92 then
          (case cs of
             [] \<Rightarrow> None
           | e # r \<Rightarrow>
               if e = 117 then
                 (case decode_uXXXX r of
                    None \<Rightarrow> None
                  | Some uni \<Rightarrow>
                      if 55296 \<le> uni \<and> uni \<le> 56319 \<and> take 2 (drop 4 r) = [92, 117] then
                        (case decode_uXXXX (drop 6 r) of
                           None \<Rightarrow> None
                         | Some uni2 \<Rightarrow>
                             if 56320 \<le> uni2 \<and> uni2 \<le> 57343
                             then Some (65536 + ((uni - 55296) * 1024 + (uni2 - 56320)), drop 10 r)
                             else Some (uni, drop 4 r))
                      else Some (uni, drop 4 r))
               else
                 (case backslash e of
                    None \<Rightarrow> None
                  | Some ch \<Rightarrow> Some (ch, r)))
        else if c < 32 then None
        else Some (c, cs))"

lemma next_char_shorter: "next_char s = Some (ch, r) \<Longrightarrow> length r < length s"
  unfolding next_char_def
  by (simp split: list.splits if_splits option.splits) auto

function scanstring :: "pystr \<Rightarrow> (pystr \<times> pystr) option" where
  "scanstring [] = None"
| "scanstring (c # cs) =
    (if c = 34 then Some ([], cs)
     else (case next_char (c # cs) of
             None \<Rightarrow> None
           | Some (ch, r) \<Rightarrow> prepend ch (scanstring r)))"
  by pat_completeness auto
termination
  by (relation "measure length") (auto dest: next_char_shorter)

lemma scanstring_shorter: "scanstring s = Some (t, r) \<Longrightarrow> length r < length s"
proof (induction s arbitrary: t rule: scanstring.induct)
  case 1
  then show ?case by simp
next
  case (2 c cs)
  show ?case
  proof (cases "c = 34")
    case True
    with "2.prems" show ?thesis by simp
  next
    case False
    with "2.prems" obtain ch r' t' where
      nc: "next_char (c # cs) = Some (ch, r')" and rec: "scanstring r' = Some (t', r)"
      by (auto simp: prepend_def split: option.splits)
    from "2.IH" [OF False nc refl rec] next_char_shorter [OF nc]
    show ?thesis by simp
  qed
qed

text \<open>
  Numbers, as the scanner's pattern \<^verbatim>\<open>-?(0|[1-9][0-9]*)(.[0-9]+)?([eE][-+]?[0-9]+)?\<close> matches them:
  the integer part, the fraction and the exponent (each empty when absent) and the input
  after them.
\<close>

definition match_frac :: "pystr \<Rightarrow> pystr \<times> pystr" where
  "match_frac s =
    (case s of
       [] \<Rightarrow> ([], s)
     | c # r \<Rightarrow>
        if c = 46 \<and> takeWhile is_digit r \<noteq> []
        then (c # takeWhile is_digit r, dropWhile is_digit r)
        else ([], s))"

definition match_exp :: "pystr \<Rightarrow> pystr \<times> pystr" where
  "match_exp s =
    (case s of
       [] \<Rightarrow> ([], s)
     | e # r \<Rightarrow>
        if e = 101 \<or> e = 69 then
          (case r of
             [] \<Rightarrow> ([], s)
           | g # r' \<Rightarrow>
              if (g = 43 \<or> g = 45) \<and> takeWhile is_digit r' \<noteq> []
              then (e # g # takeWhile is_digit r', dropWhile is_digit r')
              else if takeWhile is_digit r \<noteq> []
              then (e # takeWhile is_digit r, dropWhile is_digit r)
              else ([], s))
        else ([], s))"

definition match_integer :: "pystr \<Rightarrow> (pystr \<times> pystr) option" where
  "match_integer s =
    (case s of
       [] \<Rightarrow> None
     | d # r \<Rightarrow>
        if d = 48 then Some ([d], r)
        else if 49 \<le> d \<and> d \<le> 57 then Some (d # takeWhile is_digit r, dropWhile is_digit r)
        else None)"

definition match_number :: "pystr \<Rightarrow> ((pystr \<times> pystr \<times> pystr) \<times> pystr) option" where
  "match_number s =
    (case (case s of [] \<Rightarrow> None
                   | c # r \<Rightarrow> if c = 45 then map_option (\<lambda>(i, r'). (c # i, r')) (match_integer r)
                              else match_integer s) of
       None \<Rightarrow> None
     | Some (integer, r1) \<Rightarrow>
        (case match_frac r1 of (frac, r2) \<Rightarrow>
          (case match_exp r2 of (exp, r3) \<Rightarrow> Some ((integer, frac, exp), r3))))"

text \<open>
  \<^verbatim>\<open>int(token)\<close> of an integer part. The conversion refuses a token of more than
  \<^verbatim>\<open>sys.int_info.default_max_str_digits\<close> digits (the sign apart) with a \<^verbatim>\<open>ValueError\<close>; the
  program leaves the limit at its default.
\<close>

definition digits_value :: "pystr \<Rightarrow> nat" where
  "digits_value ds = foldl (\<lambda>a d. 10 * a + (d - 48)) 0 ds"

definition int_value :: "pystr \<Rightarrow> int" where
  "int_value l =
    (case l of
       [] \<Rightarrow> 0
     | c # r \<Rightarrow> if c = 45 then - int (digits_value r) else int (digits_value l))"

definition max_str_digits :: nat where
  "max_str_digits = 4300"

definition token_digits :: "pystr \<Rightarrow> nat" where
  "token_digits l = (case l of [] \<Rightarrow> 0 | c # r \<Rightarrow> if c = 45 then length r else length l)"

definition digits_error :: "nat \<Rightarrow> py_exn" where
  "digits_error n =
    ValueError (str ''Exceeds the limit ('' @ nat_digits max_str_digits
                @ str '' digits) for integer string conversion: value has '' @ nat_digits n
                @ str '' digits; use sys.set_int_max_str_digits() to increase the limit'')"

definition parse_int :: "pystr \<Rightarrow> py_exn + int" where
  "parse_int l =
    (if max_str_digits < token_digits l then Inl (digits_error (token_digits l))
     else Inr (int_value l))"

text \<open>
  \<^verbatim>\<open>scan_once\<close> on an input that starts neither a string, an object nor an array: the three
  literals, a number (a float when it has a fraction or an exponent), and the three float
  constants.
\<close>

abbreviation json_error :: "py_exn + 'a" where
  "json_error \<equiv> Inl (JSONDecodeError [])"

definition scan_literal :: "pystr \<Rightarrow> py_exn + (pyval \<times> pystr)" where
  "scan_literal s =
    (if take 4 s = str ''null'' then Inr (PyNone, drop 4 s)
     else if take 4 s = str ''true'' then Inr (PyBool True, drop 4 s)
     else if take 5 s = str ''false'' then Inr (PyBool False, drop 5 s)
     else (case match_number s of
             Some ((integer, frac, exp), r) \<Rightarrow>
               if frac \<noteq> [] \<or> exp \<noteq> []
               then Inr (PyFloat (FloatLit (integer @ frac @ exp)), r)
               else (case parse_int integer of
                       Inl e \<Rightarrow> Inl e
                     | Inr i \<Rightarrow> Inr (PyInt i, r))
           | None \<Rightarrow>
               if take 3 s = str ''NaN'' then Inr (PyFloat NaN, drop 3 s)
               else if take 8 s = str ''Infinity'' then Inr (PyFloat PosInf, drop 8 s)
               else if take 9 s = str ''-Infinity'' then Inr (PyFloat NegInf, drop 9 s)
               else json_error))"

lemma skip_ws_length: "length (skip_ws s) \<le> length s"
  by (induction s) auto

lemma skip_ws_Cons_length: "skip_ws s = n # r \<Longrightarrow> length r < length s"
  using skip_ws_length [of s] by simp

lemma dropWhile_length: "length (dropWhile P s) \<le> length s"
  by (induction s) auto

lemma match_integer_shorter: "match_integer s = Some (i, r) \<Longrightarrow> length r < length s"
  using dropWhile_length [of is_digit "tl s"]
  by (auto simp: match_integer_def split: list.splits if_splits)

lemma match_frac_length: "match_frac s = (f, r) \<Longrightarrow> length r \<le> length s"
  using dropWhile_length [of is_digit "tl s"]
  by (auto simp: match_frac_def split: list.splits if_splits)

lemma match_exp_length: "match_exp s = (e, r) \<Longrightarrow> length r \<le> length s"
  using dropWhile_length [of is_digit "tl s"] dropWhile_length [of is_digit "tl (tl s)"]
  by (auto simp: match_exp_def split: list.splits if_splits)

lemma match_number_shorter: "match_number s = Some (l, r) \<Longrightarrow> length r < length s"
proof -
  assume a: "match_number s = Some (l, r)"
  then obtain i r1 f r2 e where
    i: "(case s of [] \<Rightarrow> None
         | c # r \<Rightarrow> if c = 45 then map_option (\<lambda>(i, r'). (c # i, r')) (match_integer r)
                    else match_integer s) = Some (i, r1)"
    and f: "match_frac r1 = (f, r2)" and e: "match_exp r2 = (e, r)"
    by (auto simp: match_number_def split: option.splits prod.splits)
  from i have "length r1 < length s"
    by (auto split: list.splits if_splits dest: match_integer_shorter)
  with match_frac_length [OF f] match_exp_length [OF e] show ?thesis by simp
qed

lemma take_eq_length: "take n s = t \<Longrightarrow> length t = n \<Longrightarrow> 0 < n \<Longrightarrow> length (drop n s) < length s"
  by (cases "n \<le> length s") auto

lemma scan_literal_shorter: "scan_literal s = Inr (v, r) \<Longrightarrow> length r < length s"
  unfolding scan_literal_def
  by (simp split: if_splits option.splits prod.splits sum.splits)
     (auto dest: match_number_shorter take_eq_length simp: str_def)

text \<open>
  \<^verbatim>\<open>scan_once\<close> with the loops of \<^verbatim>\<open>JSONArray\<close> and \<^verbatim>\<open>JSONObject\<close>: \<open>parse_array\<close> has the values
  read so far and the input at the next value, \<open>parse_object\<close> the pairs read so far and the
  input after the opening quote of the next key. The pairs become a dictionary by
  \<^verbatim>\<open>dict(pairs)\<close>, where a repeated key keeps its first place and its last value.
  \<open>d\<close> is the number of nested arrays and objects that can still be entered: the scanner
  enters a recursive call at every opening bracket and brace, and the interpreter refuses
  the call with a \<^verbatim>\<open>RecursionError\<close> when none is left.
\<close>

definition object_depth_error :: py_exn where
  "object_depth_error =
    RecursionError (str ''maximum recursion depth exceeded while decoding a JSON object from a unicode string'')"

definition array_depth_error :: py_exn where
  "array_depth_error =
    RecursionError (str ''maximum recursion depth exceeded while decoding a JSON array from a unicode string'')"

function scan_once :: "nat \<Rightarrow> pystr \<Rightarrow> py_exn + (pyval \<times> pystr)"
  and parse_array :: "nat \<Rightarrow> pyval list \<Rightarrow> pystr \<Rightarrow> py_exn + (pyval \<times> pystr)"
  and parse_object :: "nat \<Rightarrow> (pystr \<times> pyval) list \<Rightarrow> pystr \<Rightarrow> py_exn + (pyval \<times> pystr)"
where
  "scan_once d [] = json_error"
| "scan_once d (c # cs) =
    (if c = 34 then
       (case scanstring cs of None \<Rightarrow> json_error | Some (s, r) \<Rightarrow> Inr (PyStr s, r))
     else if c = 123 then
       (if d = 0 then Inl object_depth_error
        else
          (case skip_ws cs of
             [] \<Rightarrow> json_error
           | n # r \<Rightarrow>
               if n = 125 then Inr (PyDict [], r)
               else if n = 34 then parse_object (d - 1) [] r
               else json_error))
     else if c = 91 then
       (if d = 0 then Inl array_depth_error
        else
          (case skip_ws cs of
             [] \<Rightarrow> json_error
           | n # r \<Rightarrow>
               if n = 93 then Inr (PyList [], r)
               else parse_array (d - 1) [] (n # r)))
     else scan_literal (c # cs))"
| "parse_array d vals s =
    (case scan_once d s of
       Inl e \<Rightarrow> Inl e
     | Inr (val, r) \<Rightarrow>
        (case skip_ws r of
           [] \<Rightarrow> json_error
         | n # r' \<Rightarrow>
             if n = 93 then Inr (PyList (vals @ [val]), r')
             else if n \<noteq> 44 then json_error
             else parse_array d (vals @ [val]) (skip_ws r')))"
| "parse_object d pairs s =
    (case scanstring s of
       None \<Rightarrow> json_error
     | Some (key, r) \<Rightarrow>
        (case skip_ws r of
           [] \<Rightarrow> json_error
         | n # r1 \<Rightarrow>
             if n \<noteq> 58 then json_error
             else
               (case scan_once d (skip_ws r1) of
                  Inl e \<Rightarrow> Inl e
                | Inr (val, r2) \<Rightarrow>
                    (case skip_ws r2 of
                       [] \<Rightarrow> json_error
                     | n2 # r3 \<Rightarrow>
                         if n2 = 125 then Inr (PyDict (dict (pairs @ [(key, val)])), r3)
                         else if n2 \<noteq> 44 then json_error
                         else
                           (case skip_ws r3 of
                              [] \<Rightarrow> json_error
                            | n3 # r4 \<Rightarrow>
                                if n3 \<noteq> 34 then json_error
                                else parse_object d (pairs @ [(key, val)]) r4)))))"
  by pat_completeness auto

text \<open>
  Termination: a value read leaves a shorter input. This is shown first on the domain of the
  functions, since the loops continue on the input a nested call returns.
\<close>

lemma scan_shorter_partial:
  shows "scan_once_parse_array_parse_object_dom (Inl (d, s)) \<Longrightarrow>
           scan_once d s = Inr (v, r) \<Longrightarrow> length r < length s"
    and "scan_once_parse_array_parse_object_dom (Inr (Inl (d, vals, s))) \<Longrightarrow>
           parse_array d vals s = Inr (v, r) \<Longrightarrow> length r < length s"
    and "scan_once_parse_array_parse_object_dom (Inr (Inr (d, pairs, s))) \<Longrightarrow>
           parse_object d pairs s = Inr (v, r) \<Longrightarrow> length r < length s"
proof (induction d s and d vals s and d pairs s arbitrary: v r and v r and v r
       rule: scan_once_parse_array_parse_object.pinduct)
  case (1 d)
  then show ?case by (simp add: scan_once.psimps)
next
  case (2 d c cs)
  from "2.prems" "2.hyps" have eq:
    "(if c = 34 then
       (case scanstring cs of None \<Rightarrow> json_error | Some (s, r) \<Rightarrow> Inr (PyStr s, r))
     else if c = 123 then
       (if d = 0 then Inl object_depth_error
        else
          (case skip_ws cs of
             [] \<Rightarrow> json_error
           | n # r \<Rightarrow>
               if n = 125 then Inr (PyDict [], r)
               else if n = 34 then parse_object (d - 1) [] r
               else json_error))
     else if c = 91 then
       (if d = 0 then Inl array_depth_error
        else
          (case skip_ws cs of
             [] \<Rightarrow> json_error
           | n # r \<Rightarrow>
               if n = 93 then Inr (PyList [], r)
               else parse_array (d - 1) [] (n # r)))
     else scan_literal (c # cs)) = Inr (v, r)"
    by (simp add: scan_once.psimps)
  consider (str) "c = 34" | (obj) "c \<noteq> 34" "c = 123" | (arr) "c \<noteq> 34" "c \<noteq> 123" "c = 91"
    | (lit) "c \<noteq> 34" "c \<noteq> 123" "c \<noteq> 91" by blast
  then show ?case
  proof cases
    case str
    with eq show ?thesis
      by (auto split: option.splits dest: scanstring_shorter)
  next
    case obj
    with eq have d: "d \<noteq> 0" by (auto split: if_splits)
    with eq obj obtain n r' where sk: "skip_ws cs = n # r'"
      by (auto split: list.splits)
    show ?thesis
    proof (cases "n = 125")
      case True
      with eq obj d sk skip_ws_Cons_length [OF sk] show ?thesis by auto
    next
      case False
      with eq obj d sk have n: "n = 34" and po: "parse_object (d - 1) [] r' = Inr (v, r)"
        by (auto split: if_splits)
      from "2.IH"(1) [OF obj d sk False n po] skip_ws_Cons_length [OF sk]
      show ?thesis by simp
    qed
  next
    case arr
    with eq have d: "d \<noteq> 0" by (auto split: if_splits)
    with eq arr obtain n r' where sk: "skip_ws cs = n # r'"
      by (auto split: list.splits)
    show ?thesis
    proof (cases "n = 93")
      case True
      with eq arr d sk skip_ws_Cons_length [OF sk] show ?thesis by auto
    next
      case False
      with eq arr d sk have pa: "parse_array (d - 1) [] (n # r') = Inr (v, r)"
        by auto
      from "2.IH"(2) [OF arr d sk False pa] skip_ws_length [of cs] sk
      show ?thesis by simp
    qed
  next
    case lit
    with eq have "scan_literal (c # cs) = Inr (v, r)" by simp
    then show ?thesis by (rule scan_literal_shorter)
  qed
next
  case (3 d vals s)
  from "3.prems" "3.hyps" obtain val r1 n r' where
    so: "scan_once d s = Inr (val, r1)" and sk: "skip_ws r1 = n # r'"
    and rest: "(if n = 93 then Inr (PyList (vals @ [val]), r')
                else if n \<noteq> 44 then json_error
                else parse_array d (vals @ [val]) (skip_ws r')) = Inr (v, r)"
    by (auto simp: parse_array.psimps split: sum.splits list.splits)
  have l1: "length r1 < length s" by (rule "3.IH"(1) [OF so])
  have l2: "length r' < length r1" by (rule skip_ws_Cons_length [OF sk])
  show ?case
  proof (cases "n = 93")
    case True
    with rest l1 l2 show ?thesis by auto
  next
    case False
    with rest have n: "\<not> n \<noteq> 44" and pa: "parse_array d (vals @ [val]) (skip_ws r') = Inr (v, r)"
      by (auto split: if_splits)
    from "3.IH"(2) [OF so refl sk False n pa] skip_ws_length [of r'] l1 l2
    show ?thesis by simp
  qed
next
  case (4 d pairs s)
  from "4.prems" "4.hyps" obtain key r0 n r1 where
    ss: "scanstring s = Some (key, r0)" and sk: "skip_ws r0 = n # r1"
    and rest: "(if n \<noteq> 58 then json_error
             else
               (case scan_once d (skip_ws r1) of
                  Inl e \<Rightarrow> Inl e
                | Inr (val, r2) \<Rightarrow>
                    (case skip_ws r2 of
                       [] \<Rightarrow> json_error
                     | n2 # r3 \<Rightarrow>
                         if n2 = 125 then Inr (PyDict (dict (pairs @ [(key, val)])), r3)
                         else if n2 \<noteq> 44 then json_error
                         else
                           (case skip_ws r3 of
                              [] \<Rightarrow> json_error
                            | n3 # r4 \<Rightarrow>
                                if n3 \<noteq> 34 then json_error
                                else parse_object d (pairs @ [(key, val)]) r4)))) = Inr (v, r)"
    by (auto simp: parse_object.psimps split: option.splits list.splits)
  from rest have n: "\<not> n \<noteq> 58" by (auto split: if_splits)
  with rest obtain val r2 n2 r3 where
    so: "scan_once d (skip_ws r1) = Inr (val, r2)" and sk2: "skip_ws r2 = n2 # r3"
    and rest2: "(if n2 = 125 then Inr (PyDict (dict (pairs @ [(key, val)])), r3)
                         else if n2 \<noteq> 44 then json_error
                         else
                           (case skip_ws r3 of
                              [] \<Rightarrow> json_error
                            | n3 # r4 \<Rightarrow>
                                if n3 \<noteq> 34 then json_error
                                else parse_object d (pairs @ [(key, val)]) r4)) = Inr (v, r)"
    by (auto split: sum.splits list.splits)
  have l0: "length r0 < length s" by (rule scanstring_shorter [OF ss])
  have l1: "length r1 < length r0" by (rule skip_ws_Cons_length [OF sk])
  have l2: "length r2 < length (skip_ws r1)" by (rule "4.IH"(1) [OF ss refl sk n so])
  have l3: "length r3 < length r2" by (rule skip_ws_Cons_length [OF sk2])
  note ls = l0 l1 l2 l3 skip_ws_length [of r1]
  show ?case
  proof (cases "n2 = 125")
    case True
    with rest2 ls show ?thesis by auto
  next
    case False
    with rest2 have n2: "\<not> n2 \<noteq> 44" by (auto split: if_splits)
    with False rest2 obtain n3 r4 where sk3: "skip_ws r3 = n3 # r4"
      and n3: "\<not> n3 \<noteq> 34" and po: "parse_object d (pairs @ [(key, val)]) r4 = Inr (v, r)"
      by (auto split: list.splits if_splits)
    from "4.IH"(2) [OF ss refl sk n so refl sk2 False n2 sk3 n3 po]
      skip_ws_Cons_length [OF sk3] ls
    show ?thesis by simp
  qed
qed

termination scan_once
proof (relation "measure (\<lambda>x. case x of
          Inl (d, s) \<Rightarrow> 2 * length s
        | Inr (Inl (d, vals, s)) \<Rightarrow> 2 * length s + 1
        | Inr (Inr (d, pairs, s)) \<Rightarrow> 2 * length s + 1)", goal_cases)
  case 1
  then show ?case by simp
next
  case (2 d c cs n r)
  then show ?case using skip_ws_Cons_length [of cs n r] by simp
next
  case (3 d c cs n r)
  then show ?case using skip_ws_length [of cs] by simp
next
  case (4 d vals s)
  then show ?case by simp
next
  case (5 d vals s x2 val r n r')
  then show ?case
    using scan_shorter_partial(1) [of d s val r] skip_ws_Cons_length [of r n r'] skip_ws_length [of r']
    by simp
next
  case (6 d pairs s x2 key r n r1)
  then show ?case
    using scanstring_shorter [of s key r] skip_ws_Cons_length [of r n r1] skip_ws_length [of r1]
    by simp
next
  case (7 d pairs s x2 key r n r1 x2a val r2 n2 r3 n3 r4)
  then show ?case
    using scanstring_shorter [of s key r] skip_ws_Cons_length [of r n r1] skip_ws_length [of r1]
      scan_shorter_partial(1) [of d "skip_ws r1" val r2]
      skip_ws_Cons_length [of r2 n2 r3] skip_ws_Cons_length [of r3 n3 r4]
    by simp
qed

text \<open>
  \<^verbatim>\<open>json.loads\<close>, that is \<^verbatim>\<open>JSONDecoder.decode\<close>: no byte-order mark, one value between
  optional whitespace, and nothing after it.
\<close>

definition json_loads :: "interp \<Rightarrow> pystr \<Rightarrow> py_exn + pyval" where
  "json_loads py s =
    (if take 1 s = [65279] then json_error
     else (case scan_once (recursion_depth py) (skip_ws s) of
             Inl e \<Rightarrow> Inl e
           | Inr (obj, r) \<Rightarrow> if skip_ws r = [] then Inr obj else json_error))"

section \<open>The Content Normalizer: \<^verbatim>\<open>format_content\<close>\<close>

text \<open>
  A content block of a tool result. Only \<^verbatim>\<open>TextContent\<close> has the type tag \<^verbatim>\<open>"text"\<close> and a
  \<^verbatim>\<open>text\<close> payload; the other variants of the protocol carry other tags.
\<close>

datatype content_block =
    TextContent pystr
  | ImageContent
  | AudioContent
  | ResourceLink
  | EmbeddedResource

text \<open>
  Lines 28 to 31: \<^verbatim>\<open>if parsed.get(k) is None: parsed.pop(k, None)\<close>. \<^verbatim>\<open>get\<close> gives \<^verbatim>\<open>None\<close> for a
  missing key and for a key whose value is \<^verbatim>\<open>None\<close>.
\<close>

definition remove_null :: "(pystr \<times> pyval) list \<Rightarrow> pystr \<Rightarrow> (pystr \<times> pyval) list" where
  "remove_null parsed k =
    (if dict_get parsed k = None \<or> dict_get parsed k = Some PyNone
     then dict_pop parsed k else parsed)"

text \<open>
  Lines 22 to 31: the unwrap of \<^verbatim>\<open>parsed["content"]["result"]\<close>, with the removal of the null
  fields inside the branch that unwraps.
\<close>

definition unwrap_response :: "pyval \<Rightarrow> pyval" where
  "unwrap_response parsed =
    (case parsed of
       PyDict d \<Rightarrow>
         (case dict_get d (str ''content'') of
            Some (PyDict content) \<Rightarrow>
              (case dict_get content (str ''result'') of
                 Some (PyDict result) \<Rightarrow>
                   PyDict (remove_null (remove_null result (str ''next_token''))
                             (str ''failed_regions''))
               | _ \<Rightarrow> parsed)
          | _ \<Rightarrow> parsed)
     | _ \<Rightarrow> parsed)"

text \<open>
  Lines 17 to 35, the \<^verbatim>\<open>try\<close> statement for one text payload: the string appended to
  \<^verbatim>\<open>formatted_texts\<close>, or the exception that the \<^verbatim>\<open>except\<close> clause does not catch.
\<close>

definition format_text :: "interp \<Rightarrow> pystr \<Rightarrow> py_exn + pystr" where
  "format_text py text =
    (case json_loads py text of
       Inr parsed \<Rightarrow> Inr (json_dumps (float_repr py) (unwrap_response parsed))
     | Inl (JSONDecodeError m) \<Rightarrow> Inr text
     | Inl (TypeError m) \<Rightarrow> Inr text
     | Inl e \<Rightarrow> Inl e)"

fun format_loop ::
  "interp \<Rightarrow> pystr list \<Rightarrow> content_block list \<Rightarrow> py_exn + pystr list" where
  "format_loop py formatted_texts [] = Inr formatted_texts"
| "format_loop py formatted_texts (TextContent text # content) =
    (case format_text py text of
       Inl e \<Rightarrow> Inl e
     | Inr t \<Rightarrow> format_loop py (formatted_texts @ [t]) content)"
| "format_loop py formatted_texts (c # content) = format_loop py formatted_texts content"

definition format_content :: "interp \<Rightarrow> content_block list \<Rightarrow> py_exn + pystr" where
  "format_content py content =
    (case format_loop py [] content of
       Inl e \<Rightarrow> Inl e
     | Inr formatted_texts \<Rightarrow> Inr (join [10] formatted_texts))"

text \<open>The payloads of the blocks tagged \<^verbatim>\<open>text\<close> of a content sequence, in its order.\<close>

fun text_payloads :: "content_block list \<Rightarrow> pystr list" where
  "text_payloads [] = []"
| "text_payloads (TextContent text # content) = text # text_payloads content"
| "text_payloads (c # content) = text_payloads content"

section \<open>The Connection Scope: \<^verbatim>\<open>AWSClientContext\<close>\<close>

text \<open>
  The upstream service as one invocation meets it: whether entering the transport, entering
  the session and the handshake fail (and with which exception), and what a tool call
  answers.
\<close>

record upstream =
  connect :: "py_exn option"
  open_session :: "py_exn option"
  initialize :: "py_exn option"
  call_tool :: "pystr \<Rightarrow> (pystr \<times> pyval) list \<Rightarrow> py_exn + content_block list"

datatype resource = Transport | Session

text \<open>
  The state an invocation changes: the \<^verbatim>\<open>AsyncExitStack\<close> of its context object (the
  resources entered, the last one first), and the counts a recording transport keeps: the
  resources opened, the resources closed, and the calls of \<^verbatim>\<open>aclose\<close>.
\<close>

record conn_state =
  stack :: "resource list"
  opens :: nat
  closes :: nat
  aclose_calls :: nat

text \<open>
  \<^verbatim>\<open>stack.enter_async_context(cm)\<close>: a context manager whose \<^verbatim>\<open>__aenter__\<close> raises has opened
  nothing and is not pushed.
\<close>

definition enter_async_context ::
  "py_exn option \<Rightarrow> resource \<Rightarrow> conn_state \<Rightarrow> (py_exn + unit) \<times> conn_state" where
  "enter_async_context outcome res st =
    (case outcome of
       Some e \<Rightarrow> (Inl e, st)
     | None \<Rightarrow> (Inr (), st\<lparr>stack := res # stack st, opens := Suc (opens st)\<rparr>))"

text \<open>\<^verbatim>\<open>stack.aclose()\<close>: every resource on the stack is closed, the last entered first.\<close>

definition aclose :: "conn_state \<Rightarrow> conn_state" where
  "aclose st =
    st\<lparr>stack := [], closes := closes st + length (stack st),
       aclose_calls := Suc (aclose_calls st)\<rparr>"

text \<open>Lines 55 to 64, the body of the \<^verbatim>\<open>try\<close> in \<^verbatim>\<open>__aenter__\<close>.\<close>

definition acquire :: "upstream \<Rightarrow> conn_state \<Rightarrow> (py_exn + unit) \<times> conn_state" where
  "acquire up st =
    (case enter_async_context (connect up) Transport st of
       (Inl e, st1) \<Rightarrow> (Inl e, st1)
     | (Inr _, st1) \<Rightarrow>
         (case enter_async_context (open_session up) Session st1 of
            (Inl e, st2) \<Rightarrow> (Inl e, st2)
          | (Inr _, st2) \<Rightarrow>
              (case initialize up of
                 Some e \<Rightarrow> (Inl e, st2)
               | None \<Rightarrow> (Inr (), st2))))"

text \<open>
  \<^verbatim>\<open>__aenter__\<close> with its clause \<^verbatim>\<open>except Exception\<close> (lines 65 to 68): an exception that is an
  \<^verbatim>\<open>Exception\<close> closes the stack and is replaced by the \<^verbatim>\<open>McpError\<close>; any other leaves
  \<^verbatim>\<open>__aenter__\<close> as it is, with the stack as the failure found it.
\<close>

definition aenter :: "upstream \<Rightarrow> conn_state \<Rightarrow> (py_exn + unit) \<times> conn_state" where
  "aenter up st =
    (case acquire up st of
       (Inl e, st1) \<Rightarrow>
         if is_exception e
         then (Inl (McpError (str ''Connection Error: '' @ str_exn e)), aclose st1)
         else (Inl e, st1)
     | (Inr session, st1) \<Rightarrow> (Inr session, st1))"

definition aexit :: "conn_state \<Rightarrow> conn_state" where
  "aexit st = aclose st"

text \<open>
  \<^verbatim>\<open>async with AWSClientContext() as session: body\<close>. The context object is new, so its stack
  is empty; when \<^verbatim>\<open>__aenter__\<close> raises, the body and \<^verbatim>\<open>__aexit__\<close> do not run and the exception
  leaves the statement; \<^verbatim>\<open>__aexit__\<close> returns \<^verbatim>\<open>None\<close>, so it suppresses nothing.
\<close>

definition init :: "conn_state \<Rightarrow> conn_state" where
  "init st = st\<lparr>stack := []\<rparr>"

definition async_with ::
  "upstream \<Rightarrow> conn_state \<Rightarrow> (py_exn + pystr) \<Rightarrow> (py_exn + pystr) \<times> conn_state" where
  "async_with up st body =
    (case aenter up (init st) of
       (Inl e, st1) \<Rightarrow> (Inl e, st1)
     | (Inr session, st1) \<Rightarrow> (body, aexit st1))"

section \<open>The tool handlers\<close>

text \<open>\<^verbatim>\<open>result = await session.call_tool(name, args); return format_content(result.content)\<close>\<close>

definition call_and_format ::
  "interp \<Rightarrow> upstream \<Rightarrow> pystr \<Rightarrow> (pystr \<times> pyval) list \<Rightarrow> py_exn + pystr" where
  "call_and_format py up name args =
    (case call_tool up name args of
       Inl e \<Rightarrow> Inl e
     | Inr content \<Rightarrow> format_content py content)"

text \<open>
  \<^verbatim>\<open>except Exception as e: return f"<label>: {str(e)}"\<close> around the body of a handler: an
  exception that is not an \<^verbatim>\<open>Exception\<close> is not caught.
\<close>

definition except_return :: "pystr \<Rightarrow> py_exn + pystr \<Rightarrow> py_exn + pystr" where
  "except_return label r =
    (case r of
       Inl e \<Rightarrow> if is_exception e then Inr (label @ str_exn e) else Inl e
     | Inr s \<Rightarrow> Inr s)"

text \<open>Lines 81 to 83.\<close>

definition search_args :: "pystr \<Rightarrow> pystr list option \<Rightarrow> (pystr \<times> pyval) list" where
  "search_args query topics =
    (let args = [(str ''search_phrase'', PyStr query)] in
     case topics of
       None \<Rightarrow> args
     | Some ts \<Rightarrow> if ts = [] then args else dict_set args (str ''topics'') (PyList (map PyStr ts)))"

definition search_documentation ::
  "interp \<Rightarrow> upstream \<Rightarrow> conn_state \<Rightarrow> pystr \<Rightarrow> pystr list option
     \<Rightarrow> (py_exn + pystr) \<times> conn_state" where
  "search_documentation py up st query topics =
    async_with up st
      (except_return (str ''Error searching documentation: '')
         (call_and_format py up (str ''aws___search_documentation'') (search_args query topics)))"

text \<open>Lines 94 to 98.\<close>

definition read_args :: "pystr \<Rightarrow> int option \<Rightarrow> int option \<Rightarrow> (pystr \<times> pyval) list" where
  "read_args url start_index max_length =
    (let args = [(str ''url'', PyStr url)];
         args = (case start_index of
                   None \<Rightarrow> args
                 | Some i \<Rightarrow> dict_set args (str ''start_index'') (PyInt i))
     in case max_length of
          None \<Rightarrow> args
        | Some n \<Rightarrow> dict_set args (str ''max_length'') (PyInt n))"

definition read_documentation ::
  "interp \<Rightarrow> upstream \<Rightarrow> conn_state \<Rightarrow> pystr \<Rightarrow> int option \<Rightarrow> int option
     \<Rightarrow> (py_exn + pystr) \<times> conn_state" where
  "read_documentation py up st url start_index max_length =
    async_with up st
      (except_return (str ''Error reading documentation: '')
         (call_and_format py up (str ''aws___read_documentation'')
            (read_args url start_index max_length)))"

definition recommend ::
  "interp \<Rightarrow> upstream \<Rightarrow> conn_state \<Rightarrow> pystr \<Rightarrow> (py_exn + pystr) \<times> conn_state" where
  "recommend py up st url =
    async_with up st
      (except_return (str ''Error getting recommendations: '')
         (call_and_format py up (str ''aws___recommend'') [(str ''url'', PyStr url)]))"

definition list_regions ::
  "interp \<Rightarrow> upstream \<Rightarrow> conn_state \<Rightarrow> (py_exn + pystr) \<times> conn_state" where
  "list_regions py up st =
    async_with up st
      (except_return (str ''Error listing regions: '')
         (call_and_format py up (str ''aws___list_regions'') []))"

text \<open>
  \<^verbatim>\<open>filters: Union[List[str], str, None]\<close>, and its truth value in \<^verbatim>\<open>if filters:\<close> (a non-empty
  list or a non-empty string).
\<close>

datatype filters_arg = FiltersList "pystr list" | FiltersStr pystr

fun truthy :: "filters_arg option \<Rightarrow> bool" where
  "truthy None = False"
| "truthy (Some (FiltersList l)) = (l \<noteq> [])"
| "truthy (Some (FiltersStr s)) = (s \<noteq> [])"

text \<open>
  Lines 133 to 141: the value assigned to \<^verbatim>\<open>args["filters"]\<close>. The inner \<^verbatim>\<open>except\<close> catches
  \<^verbatim>\<open>JSONDecodeError\<close> only; any other exception of \<^verbatim>\<open>json.loads\<close> leaves the statement.
\<close>

fun normalize_filters :: "interp \<Rightarrow> filters_arg \<Rightarrow> py_exn + pyval" where
  "normalize_filters py (FiltersList l) = Inr (PyList (map PyStr l))"
| "normalize_filters py (FiltersStr s) =
    (case json_loads py s of
       Inr (PyList parsed) \<Rightarrow> Inr (PyList parsed)
     | Inr _ \<Rightarrow> Inr (PyList [PyStr s])
     | Inl (JSONDecodeError m) \<Rightarrow> Inr (PyList [PyStr s])
     | Inl e \<Rightarrow> Inl e)"

text \<open>Lines 130 to 142.\<close>

definition availability_args ::
  "interp \<Rightarrow> pystr \<Rightarrow> pystr \<Rightarrow> filters_arg option \<Rightarrow> py_exn + (pystr \<times> pyval) list" where
  "availability_args py resource_type region filters =
    (let args = [(str ''resource_type'', PyStr resource_type), (str ''region'', PyStr region)] in
     if truthy filters then
       (case filters of
          None \<Rightarrow> Inr args
        | Some f \<Rightarrow>
            (case normalize_filters py f of
               Inl e \<Rightarrow> Inl e
             | Inr fs \<Rightarrow> Inr (dict_set args (str ''filters'') fs)))
     else Inr args)"

definition get_regional_availability ::
  "interp \<Rightarrow> upstream \<Rightarrow> conn_state \<Rightarrow> pystr \<Rightarrow> pystr \<Rightarrow> filters_arg option
     \<Rightarrow> (py_exn + pystr) \<times> conn_state" where
  "get_regional_availability py up st resource_type region filters =
    async_with up st
      (except_return (str ''Error checking availability: '')
         (case availability_args py resource_type region filters of
            Inl e \<Rightarrow> Inl e
          | Inr args \<Rightarrow> call_and_format py up (str ''aws___get_regional_availability'') args))"

text \<open>
  The five registered tools with their parameters as a request of the dispatcher, optional
  parameters as options; \<open>invoke\<close> runs the handler of a request, filling in the default
  of \<^verbatim>\<open>region\<close>.
\<close>

datatype tool_request =
    SearchDocumentation pystr "pystr list option"
  | ReadDocumentation pystr "int option" "int option"
  | Recommend pystr
  | ListRegions
  | GetRegionalAvailability pystr "pystr option" "filters_arg option"

fun invoke ::
  "interp \<Rightarrow> upstream \<Rightarrow> conn_state \<Rightarrow> tool_request \<Rightarrow> (py_exn + pystr) \<times> conn_state" where
  "invoke py up st (SearchDocumentation query topics) = search_documentation py up st query topics"
| "invoke py up st (ReadDocumentation url start_index max_length) =
    read_documentation py up st url start_index max_length"
| "invoke py up st (Recommend url) = recommend py up st url"
| "invoke py up st ListRegions = list_regions py up st"
| "invoke py up st (GetRegionalAvailability resource_type region filters) =
    get_regional_availability py up st resource_type
      (case region of None \<Rightarrow> str ''us-east-1'' | Some r \<Rightarrow> r) filters"

fun error_label :: "tool_request \<Rightarrow> pystr" where
  "error_label (SearchDocumentation query topics) = str ''Error searching documentation: ''"
| "error_label (ReadDocumentation url start_index max_length) = str ''Error reading documentation: ''"
| "error_label (Recommend url) = str ''Error getting recommendations: ''"
| "error_label ListRegions = str ''Error listing regions: ''"
| "error_label (GetRegionalAvailability resource_type region filters) =
    str ''Error checking availability: ''"

text \<open>
  The upstream call the handler of a request makes: the name of the upstream tool, and the
  argument dictionary (lines 81 to 83, 94 to 98, 109, 119 and 130 to 142), or the
  exception its construction raises.
\<close>

fun tool_name :: "tool_request \<Rightarrow> pystr" where
  "tool_name (SearchDocumentation query topics) = str ''aws___search_documentation''"
| "tool_name (ReadDocumentation url start_index max_length) = str ''aws___read_documentation''"
| "tool_name (Recommend url) = str ''aws___recommend''"
| "tool_name ListRegions = str ''aws___list_regions''"
| "tool_name (GetRegionalAvailability resource_type region filters) =
    str ''aws___get_regional_availability''"

fun tool_args :: "interp \<Rightarrow> tool_request \<Rightarrow> py_exn + (pystr \<times> pyval) list" where
  "tool_args py (SearchDocumentation query topics) = Inr (search_args query topics)"
| "tool_args py (ReadDocumentation url start_index max_length) =
    Inr (read_args url start_index max_length)"
| "tool_args py (Recommend url) = Inr [(str ''url'', PyStr url)]"
| "tool_args py ListRegions = Inr []"
| "tool_args py (GetRegionalAvailability resource_type region filters) =
    availability_args py resource_type
      (case region of None \<Rightarrow> str ''us-east-1'' | Some r \<Rightarrow> r) filters"

text \<open>The body of the \<^verbatim>\<open>try\<close> statement of the handler: the string it returns or the exception it raises.\<close>

definition handler_body :: "interp \<Rightarrow> upstream \<Rightarrow> tool_request \<Rightarrow> py_exn + pystr" where
  "handler_body py up req =
    (case tool_args py req of
       Inl e \<Rightarrow> Inl e
     | Inr args \<Rightarrow> call_and_format py up (tool_name req) args)"

section \<open>Well-formed values, stable float texts and values within the limits\<close>

text \<open>
  A float token: a number token with a fraction or an exponent, the whole text.
\<close>

definition is_float_token :: "pystr \<Rightarrow> bool" where
  "is_float_token t =
    (case match_number t of
       Some ((i, f, e), r) \<Rightarrow> r = [] \<and> (f \<noteq> [] \<or> e \<noteq> [])
     | None \<Rightarrow> False)"

text \<open>
  What is assumed of Python's floats: the text of the float read from a float token is
  \<^verbatim>\<open>Infinity\<close>, \<^verbatim>\<open>-Infinity\<close> or again a float token, and reading that text and writing it
  again gives the same text (\<^verbatim>\<open>repr(float(repr(x))) == repr(x)\<close>).
\<close>

definition float_repr_stable :: "(pystr \<Rightarrow> pystr) \<Rightarrow> bool" where
  "float_repr_stable fr =
    (\<forall>l. is_float_token l \<longrightarrow>
       fr l = str ''Infinity'' \<or> fr l = str ''-Infinity''
       \<or> (is_float_token (fr l) \<and> fr (fr l) = fr l))"

text \<open>
  A well-formed value: every float is one that a float token gives, and in every dictionary
  the keys have pairwise different JSON texts. A dictionary whose keys hold no surrogate
  code points is such a dictionary (\<open>scalar_keys_render_apart\<close> below); two different keys
  have the same JSON text when one holds a high surrogate followed by a low surrogate where
  the other holds the code point the pair encodes.
\<close>

fun well_formed :: "pyval \<Rightarrow> bool" where
  "well_formed (PyFloat (FloatLit l)) = is_float_token l"
| "well_formed (PyList lst) = list_all well_formed lst"
| "well_formed (PyDict dct) =
    (distinct (map (\<lambda>(key, val). encode_basestring_ascii key) dct)
     \<and> list_all (\<lambda>(key, val). well_formed val) dct)"
| "well_formed v = True"

text \<open>
  A value within the limits of the interpreter: every integer has at most
  \<open>max_str_digits\<close> digits, and the arrays and objects are nested at most \<open>d\<close> deep.
\<close>

fun within_limits :: "nat \<Rightarrow> pyval \<Rightarrow> bool" where
  "within_limits d (PyInt i) = (length (nat_digits (nat \<bar>i\<bar>)) \<le> max_str_digits)"
| "within_limits d (PyList lst) = (0 < d \<and> list_all (within_limits (d - 1)) lst)"
| "within_limits d (PyDict dct) =
    (0 < d \<and> list_all (\<lambda>(key, val). within_limits (d - 1) val) dct)"
| "within_limits d v = True"

section \<open>Notions of the proofs\<close>

text \<open>
  Surrogates and the code point a pair encodes; \<open>reread\<close> is what \<open>scanstring\<close> reads back
  from an escaped string: the string itself, but a high surrogate followed by a low
  surrogate comes back as the one code point they encode. \<open>delim\<close> holds of what follows a
  value in the encoder's text (nothing, a comma or a newline), \<open>value_start\<close> of the first
  character of an encoded value, \<open>item_text\<close> is the text of one dictionary entry, and
  \<open>scalar\<close> holds of the code points that are not surrogates.
\<close>

definition is_high :: "nat \<Rightarrow> bool" where
  "is_high c = (55296 \<le> c \<and> c \<le> 56319)"

definition is_low :: "nat \<Rightarrow> bool" where
  "is_low c = (56320 \<le> c \<and> c \<le> 57343)"

definition joined :: "nat \<Rightarrow> nat \<Rightarrow> nat" where
  "joined h l = 65536 + ((h - 55296) * 1024 + (l - 56320))"

definition high_of :: "nat \<Rightarrow> nat" where
  "high_of c = 55296 + (c - 65536) div 1024 mod 1024"

definition low_of :: "nat \<Rightarrow> nat" where
  "low_of c = 56320 + (c - 65536) mod 1024"

definition reread1 :: "nat \<Rightarrow> nat" where
  "reread1 c = (if c < 65536 then c else joined (high_of c) (low_of c))"

fun reread :: "pystr \<Rightarrow> pystr" where
  "reread [] = []"
| "reread [c] = [reread1 c]"
| "reread (c # d # s) =
    (if is_high c \<and> is_low d then joined c d # reread s else reread1 c # reread (d # s))"

definition hex4 :: "nat \<Rightarrow> pystr" where
  "hex4 n = [hexdigit (n div 4096 mod 16), hexdigit (n div 256 mod 16),
             hexdigit (n div 16 mod 16), hexdigit (n mod 16)]"

fun delim :: "pystr \<Rightarrow> bool" where
  "delim [] = True"
| "delim (c # r) = (c = 44 \<or> c = 10)"

definition value_start :: "nat \<Rightarrow> bool" where
  "value_start c = (c = 34 \<or> c = 123 \<or> c = 91 \<or> c = 45 \<or> c = 110 \<or> c = 116 \<or> c = 102
                    \<or> c = 78 \<or> c = 73 \<or> is_digit c)"

definition item_text :: "(pystr \<Rightarrow> pystr) \<Rightarrow> nat \<Rightarrow> pystr \<times> pyval \<Rightarrow> pystr" where
  "item_text fr n p = encode_basestring_ascii (fst p) @ [58, 32] @ iterencode fr (Suc n) (snd p)"

definition scalar :: "nat \<Rightarrow> bool" where
  "scalar c = (c < 55296 \<or> (57344 \<le> c \<and> c < 1114112))"

text \<open>
  The interpreter of the concrete runs: the text of a float is the token it was read from
  (the runs hold no float whose text Python changes), and the decoder can enter 1000
  nested arrays and objects.
\<close>

definition example_interp :: interp where
  "example_interp = \<lparr>float_repr = (\<lambda>l. l), recursion_depth = 1000\<rparr>"

section \<open>Evaluation and basic facts\<close>

text \<open>The definitions a concrete run unfolds.\<close>

lemmas eval_simps = format_content_def format_text_def json_loads_def str_def
  scan_literal_def match_number_def match_integer_def match_frac_def match_exp_def
  is_digit_def is_ws_def parse_int_def token_digits_def max_str_digits_def int_value_def
  digits_value_def dict_def dict_get_def dict_pop_def
  unwrap_response_def remove_null_def json_dumps_def newline_indent_def
  encode_basestring_ascii_def escape_char_def int_repr_def nat_digits.simps
  next_char_def prepend_def backslash_def example_interp_def

lemma format_content_single: "format_content py [TextContent t] = format_text py t"
  by (simp add: format_content_def split: sum.splits)

lemma format_loop_Inr:
  "\<forall>t\<in>set (text_payloads content). \<exists>r. format_text py t = Inr r \<Longrightarrow>
   \<exists>ts. format_loop py acc content = Inr (acc @ ts)
        \<and> map (format_text py) (text_payloads content) = map Inr ts"
proof (induction content arbitrary: acc)
  case Nil
  then show ?case by simp
next
  case (Cons c content)
  show ?case
  proof (cases c)
    case (TextContent t)
    with Cons.prems obtain x where x: "format_text py t = Inr x"
      by auto
    from Cons.prems TextContent
    have "\<forall>t\<in>set (text_payloads content). \<exists>r. format_text py t = Inr r" by simp
    from Cons.IH [OF this, of "acc @ [x]"] obtain ts where
      "format_loop py (acc @ [x]) content = Inr ((acc @ [x]) @ ts)"
      "map (format_text py) (text_payloads content) = map Inr ts" by blast
    then have "format_loop py acc (c # content) = Inr (acc @ (x # ts))
        \<and> map (format_text py) (text_payloads (c # content)) = map Inr (x # ts)"
      using TextContent x by simp
    then show ?thesis by blast
  qed (use Cons.IH [of acc] Cons.prems in simp_all)
qed

lemma format_loop_append:
  "format_loop py acc (xs @ ys) =
     (case format_loop py acc xs of Inl e \<Rightarrow> Inl e | Inr acc' \<Rightarrow> format_loop py acc' ys)"
proof (induction xs arbitrary: acc)
  case Nil
  then show ?case by simp
next
  case (Cons c xs)
  then show ?case by (cases c) (simp_all split: sum.splits)
qed

text \<open>The first text payload on which the \<^verbatim>\<open>try\<close> statement raises ends the loop.\<close>

lemma format_loop_raises:
  "\<forall>t\<in>set (text_payloads xs). \<exists>r. format_text py t = Inr r \<Longrightarrow> format_text py t = Inl e \<Longrightarrow>
   format_loop py acc (xs @ TextContent t # ys) = Inl e"
proof -
  assume "\<forall>t\<in>set (text_payloads xs). \<exists>r. format_text py t = Inr r" and e: "format_text py t = Inl e"
  from format_loop_Inr [OF this(1), of acc] obtain ts where
    "format_loop py acc xs = Inr (acc @ ts)" by blast
  with e show ?thesis by (simp add: format_loop_append)
qed

lemma join_lines:
  "join sep ts = (if ts = [] then [] else concat (map (\<lambda>t. t @ sep) (butlast ts)) @ last ts)"
  by (induction sep ts rule: join.induct) simp_all








lemma format_content_not_json:
  "json_loads py t = Inl (JSONDecodeError m) \<Longrightarrow> format_content py [TextContent t] = Inr t"
  by (simp add: format_content_single format_text_def)


text \<open>The three ways of a string given as \<^verbatim>\<open>filters\<close>.\<close>

lemma normalize_filters_loaded:
  "json_loads py s = Inr v \<Longrightarrow>
   normalize_filters py (FiltersStr s) =
     Inr (case v of PyList parsed \<Rightarrow> PyList parsed | _ \<Rightarrow> PyList [PyStr s])"
  by (simp split: pyval.splits)

lemma normalize_filters_not_json:
  "json_loads py s = Inl (JSONDecodeError m) \<Longrightarrow>
   normalize_filters py (FiltersStr s) = Inr (PyList [PyStr s])"
  by simp


lemma availability_args_truthy:
  "truthy (Some f) \<Longrightarrow>
   availability_args py resource_type region (Some f) =
     (case normalize_filters py f of
        Inl e \<Rightarrow> Inl e
      | Inr fs \<Rightarrow> Inr [(str ''resource_type'', PyStr resource_type), (str ''region'', PyStr region),
                      (str ''filters'', fs)])"
  by (simp add: availability_args_def str_def split: sum.splits)

lemma availability_args_falsy:
  "\<not> truthy filters \<Longrightarrow>
   availability_args py resource_type region filters =
     Inr [(str ''resource_type'', PyStr resource_type), (str ''region'', PyStr region)]"
  by (simp add: availability_args_def)

lemma acquire_cases:
  "acquire up st =
     (case connect up of
        Some e \<Rightarrow> (Inl e, st)
      | None \<Rightarrow>
          (case open_session up of
             Some e \<Rightarrow> (Inl e, st\<lparr>stack := Transport # stack st, opens := Suc (opens st)\<rparr>)
           | None \<Rightarrow>
               (case initialize up of
                  Some e \<Rightarrow> (Inl e, st\<lparr>stack := Session # Transport # stack st,
                                         opens := Suc (Suc (opens st))\<rparr>)
                | None \<Rightarrow> (Inr (), st\<lparr>stack := Session # Transport # stack st,
                                       opens := Suc (Suc (opens st))\<rparr>))))"
  by (simp add: acquire_def enter_async_context_def split: option.splits)

lemma acquire_counts:
  "\<exists>opened. stack (snd (acquire up st)) = opened @ stack st
     \<and> opens (snd (acquire up st)) = opens st + length opened
     \<and> closes (snd (acquire up st)) = closes st
     \<and> aclose_calls (snd (acquire up st)) = aclose_calls st"
proof (cases "connect up")
  case None
  note c = this
  show ?thesis
  proof (cases "open_session up")
    case None
    with c have "stack (snd (acquire up st)) = [Session, Transport] @ stack st
     \<and> opens (snd (acquire up st)) = opens st + length [Session, Transport]
     \<and> closes (snd (acquire up st)) = closes st
     \<and> aclose_calls (snd (acquire up st)) = aclose_calls st"
      by (simp add: acquire_cases split: option.splits)
    then show ?thesis by blast
  next
    case (Some e)
    with c have "stack (snd (acquire up st)) = [Transport] @ stack st
     \<and> opens (snd (acquire up st)) = opens st + length [Transport]
     \<and> closes (snd (acquire up st)) = closes st
     \<and> aclose_calls (snd (acquire up st)) = aclose_calls st"
      by (simp add: acquire_cases)
    then show ?thesis by blast
  qed
next
  case (Some e)
  then have "stack (snd (acquire up st)) = [] @ stack st
     \<and> opens (snd (acquire up st)) = opens st + length ([] :: resource list)
     \<and> closes (snd (acquire up st)) = closes st
     \<and> aclose_calls (snd (acquire up st)) = aclose_calls st"
    by (simp add: acquire_cases)
  then show ?thesis by blast
qed


lemma async_with_state:
  "snd (async_with up st body) =
     (case fst (acquire up (init st)) of
        Inl e \<Rightarrow> if is_exception e then aclose (snd (acquire up (init st)))
                 else snd (acquire up (init st))
      | Inr session \<Rightarrow> aclose (snd (acquire up (init st))))"
  by (simp add: async_with_def aenter_def aexit_def split: prod.splits sum.splits)

text \<open>
  Where \<^verbatim>\<open>__aenter__\<close> returns or fails with an \<^verbatim>\<open>Exception\<close>, the statement closes the stack
  once and closes what it opened.
\<close>

lemma async_with_released:
  assumes "\<forall>e. fst (acquire up (init st)) = Inl e \<longrightarrow> is_exception e"
  shows "aclose_calls (snd (async_with up st body)) = Suc (aclose_calls st)
   \<and> stack (snd (async_with up st body)) = []
   \<and> opens (snd (async_with up st body)) + closes st
       = closes (snd (async_with up st body)) + opens st"
proof -
  obtain opened where
    "stack (snd (acquire up (init st))) = opened @ stack (init st)"
    "opens (snd (acquire up (init st))) = opens (init st) + length opened"
    "closes (snd (acquire up (init st))) = closes (init st)"
    "aclose_calls (snd (acquire up (init st))) = aclose_calls (init st)"
    using acquire_counts [of up "init st"] by blast
  moreover from assms have "snd (async_with up st body) = aclose (snd (acquire up (init st)))"
    by (simp add: async_with_state split: sum.splits)
  ultimately show ?thesis
    by (simp add: aclose_def init_def)
qed

lemma invoke_async_with:
  "invoke py up st req =
     async_with up st (except_return (error_label req) (handler_body py up req))"
  by (cases req)
    (simp_all add: handler_body_def search_documentation_def read_documentation_def
       recommend_def list_regions_def get_regional_availability_def cong: sum.case_cong)

lemma except_return_cases:
  "except_return label r =
     (case r of
        Inl e \<Rightarrow> if is_exception e then Inr (label @ str_exn e) else Inl e
      | Inr s \<Rightarrow> Inr s)"
  by (simp add: except_return_def)

section \<open>The decoder on the encoder's text: strings\<close>

text \<open>
  What \<open>scanstring\<close> reads back from an escaped string: the string itself, but a high
  surrogate followed by a low surrogate comes back as the one code point they encode.
\<close>

lemma hexval_hexdigit: "d < 16 \<Longrightarrow> hexval (hexdigit d) = Some d"
  by (simp add: hexval_def hexdigit_def)

lemma hex4_value:
  assumes "n < 65536"
  shows "((n div 4096 mod 16 * 16 + n div 256 mod 16) * 16 + n div 16 mod 16) * 16 + n mod 16
           = (n::nat)"
proof -
  define a where "a = n div 16"
  define b where "b = a div 16"
  define c where "c = b div 16"
  have a: "n div 256 = b" and b: "n div 4096 = c"
    by (simp_all add: a_def b_def c_def div_mult2_eq [symmetric])
  from assms have "c < 16" unfolding b [symmetric] by simp
  then have c: "c mod 16 = c" by simp
  have "c * 16 + b mod 16 = b" unfolding c_def by simp
  moreover have "b * 16 + a mod 16 = a" unfolding b_def by simp
  moreover have "a * 16 + n mod 16 = n" unfolding a_def by simp
  ultimately show ?thesis
    unfolding a b c a_def [symmetric] by simp
qed

lemma u_escape_hex4: "u_escape n = 92 # 117 # hex4 n"
  by (simp add: u_escape_def hex4_def)

lemma length_hex4: "length (hex4 n) = 4"
  by (simp add: hex4_def)

lemma decode_hex4: "n < 65536 \<Longrightarrow> decode_uXXXX (hex4 n @ r) = Some n"
  using hex4_value [of n]
  by (simp add: decode_uXXXX_def hex4_def hexval_hexdigit del: mult_Suc_right)

lemma next_char_u:
  "next_char (92 # 117 # x) =
     (case decode_uXXXX x of
        None \<Rightarrow> None
      | Some uni \<Rightarrow>
          if is_high uni \<and> take 2 (drop 4 x) = [92, 117] then
            (case decode_uXXXX (drop 6 x) of
               None \<Rightarrow> None
             | Some uni2 \<Rightarrow>
                 if is_low uni2 then Some (joined uni uni2, drop 10 x)
                 else Some (uni, drop 4 x))
          else Some (uni, drop 4 x))"
  by (simp add: next_char_def is_high_def is_low_def joined_def conj_assoc cong: option.case_cong if_cong)

lemma is_high_less: "is_high h \<Longrightarrow> h < 65536"
  by (simp add: is_high_def)

lemma is_low_less: "is_low l \<Longrightarrow> l < 65536"
  by (simp add: is_low_def)

lemma next_char_pair:
  "is_high h \<Longrightarrow> is_low l \<Longrightarrow>
   next_char (u_escape h @ u_escape l @ r) = Some (joined h l, r)"
  by (simp add: u_escape_hex4 next_char_u decode_hex4 length_hex4 is_high_less is_low_less)

lemma next_char_single:
  "n < 65536 \<Longrightarrow> \<not> is_high n \<Longrightarrow> next_char (u_escape n @ r) = Some (n, r)"
  by (simp add: u_escape_hex4 next_char_u decode_hex4 length_hex4)

lemma next_char_high_then_u:
  "is_high h \<Longrightarrow> m < 65536 \<Longrightarrow> \<not> is_low m \<Longrightarrow>
   next_char (u_escape h @ u_escape m @ r) = Some (h, u_escape m @ r)"
  by (simp add: u_escape_hex4 next_char_u decode_hex4 length_hex4 is_high_less)

lemma next_char_high_then_other:
  "is_high h \<Longrightarrow> take 2 r \<noteq> [92, 117] \<Longrightarrow> next_char (u_escape h @ r) = Some (h, r)"
  by (simp add: u_escape_hex4 next_char_u decode_hex4 length_hex4 is_high_less)

lemma high_of_is_high: "is_high (high_of c)"
  by (simp add: is_high_def high_of_def)

lemma low_of_is_low: "is_low (low_of c)"
  by (simp add: is_low_def low_of_def)

lemma high_not_low: "is_high c \<Longrightarrow> \<not> is_low c"
  by (simp add: is_high_def is_low_def)

lemma escape_char_cases:
  obtains (astral) "65536 \<le> c" "escape_char c = u_escape (high_of c) @ u_escape (low_of c)"
  | (uesc) "c < 65536" "escape_char c = u_escape c"
  | (plain) "32 \<le> c" "c \<noteq> 92" "c \<noteq> 34" "\<not> is_high c" "\<not> is_low c" "c < 65536"
      "escape_char c = [c]"
  | (short) e where "escape_char c = [92, e]" "backslash e = Some c" "e \<noteq> 117"
      "\<not> is_high c" "\<not> is_low c" "c < 65536"
proof -
  consider "c = 34" | "c = 92" | "c = 10" | "c = 13" | "c = 9" | "c = 8" | "c = 12"
    | "c \<noteq> 34" "c \<noteq> 92" "32 \<le> c" "c \<le> 126"
    | "c \<noteq> 34" "c \<noteq> 92" "c \<noteq> 10" "c \<noteq> 13" "c \<noteq> 9" "c \<noteq> 8" "c \<noteq> 12"
      "\<not> (32 \<le> c \<and> c \<le> 126)" "c < 65536"
    | "65536 \<le> c"
    by linarith
  then show thesis
  proof cases
    case 8
    then show ?thesis
      by (intro plain) (simp_all add: escape_char_def is_high_def is_low_def)
  next
    case 9
    then show ?thesis
      by (intro uesc) (auto simp: escape_char_def)
  next
    case 10
    then show ?thesis
      by (intro astral) (simp_all add: escape_char_def high_of_def low_of_def)
  next
    case 1
    then show ?thesis
      by (intro short [of 34]) (simp_all add: escape_char_def backslash_def is_high_def is_low_def)
  next
    case 2
    then show ?thesis
      by (intro short [of 92]) (simp_all add: escape_char_def backslash_def is_high_def is_low_def)
  next
    case 3
    then show ?thesis
      by (intro short [of 110]) (simp_all add: escape_char_def backslash_def is_high_def is_low_def)
  next
    case 4
    then show ?thesis
      by (intro short [of 114]) (simp_all add: escape_char_def backslash_def is_high_def is_low_def)
  next
    case 5
    then show ?thesis
      by (intro short [of 116]) (simp_all add: escape_char_def backslash_def is_high_def is_low_def)
  next
    case 6
    then show ?thesis
      by (intro short [of 98]) (simp_all add: escape_char_def backslash_def is_high_def is_low_def)
  next
    case 7
    then show ?thesis
      by (intro short [of 102]) (simp_all add: escape_char_def backslash_def is_high_def is_low_def)
  qed
qed

lemma is_high_escape: "is_high c \<Longrightarrow> escape_char c = u_escape c"
  by (simp add: escape_char_def is_high_def)

lemma is_low_escape: "is_low c \<Longrightarrow> escape_char c = u_escape c"
  by (simp add: escape_char_def is_low_def)

lemma reread1_small: "c < 65536 \<Longrightarrow> reread1 c = c"
  by (simp add: reread1_def)

lemma reread1_astral: "65536 \<le> c \<Longrightarrow> reread1 c = joined (high_of c) (low_of c)"
  by (simp add: reread1_def)

text \<open>After a unit that is not a high surrogate, whatever follows.\<close>

lemma next_char_escape_free:
  assumes "\<not> is_high c"
  shows "next_char (escape_char c @ R) = Some (reread1 c, R)"
proof (cases c rule: escape_char_cases)
  case astral
  then show ?thesis
    by (simp add: next_char_pair high_of_is_high low_of_is_low reread1_astral)
next
  case uesc
  with assms show ?thesis
    by (simp add: next_char_single reread1_small)
next
  case plain
  then show ?thesis
    by (simp add: next_char_def reread1_small)
next
  case (short e)
  then show ?thesis
    by (simp add: next_char_def reread1_small)
qed

text \<open>After a high surrogate: the closing quote, or a unit that is not a low surrogate.\<close>

lemma next_char_high_quote:
  assumes "is_high c"
  shows "next_char (escape_char c @ 34 # rest) = Some (reread1 c, 34 # rest)"
  using assms
  by (simp add: is_high_escape next_char_high_then_other reread1_small is_high_less)

lemma next_char_high_not_low:
  assumes "is_high c" and "\<not> is_low d"
  shows "next_char (escape_char c @ escape_char d @ R) = Some (reread1 c, escape_char d @ R)"
proof (cases d rule: escape_char_cases)
  case astral
  with assms show ?thesis
    using next_char_high_then_u [of c "high_of d" "u_escape (low_of d) @ R"]
    by (simp add: is_high_escape reread1_small is_high_less high_of_is_high high_not_low)
next
  case uesc
  with assms show ?thesis
    by (simp add: is_high_escape next_char_high_then_u reread1_small is_high_less)
next
  case plain
  with assms show ?thesis
    by (simp add: is_high_escape next_char_high_then_other reread1_small is_high_less)
next
  case (short e)
  with assms show ?thesis
    by (simp add: is_high_escape next_char_high_then_other reread1_small is_high_less)
qed

lemma escape_char_not_quote: "escape_char c @ R = x # xs \<Longrightarrow> x \<noteq> 34"
  by (cases c rule: escape_char_cases) (auto simp: u_escape_hex4)

lemma scanstring_step:
  assumes "next_char (escape_char c @ R) = Some (ch, R')"
  shows "scanstring (escape_char c @ R) = prepend ch (scanstring R')"
proof -
  obtain x xs where x: "escape_char c @ R = x # xs"
    by (cases c rule: escape_char_cases) (auto simp: u_escape_hex4)
  with escape_char_not_quote [OF x] assms show ?thesis by simp
qed

lemma scanstring_escaped:
  "scanstring (concat (map escape_char s) @ 34 # rest) = Some (reread s, rest)"
proof (induction s rule: reread.induct)
  case 1
  then show ?case by simp
next
  case (2 c)
  have "next_char (escape_char c @ 34 # rest) = Some (reread1 c, 34 # rest)"
    by (cases "is_high c") (simp_all add: next_char_high_quote next_char_escape_free)
  from scanstring_step [OF this] show ?case by (simp add: prepend_def)
next
  case (3 c d s)
  let ?R = "concat (map escape_char s) @ 34 # rest"
  show ?case
  proof (cases "is_high c \<and> is_low d")
    case True
    then have "next_char (escape_char c @ escape_char d @ ?R) = Some (joined c d, ?R)"
      by (simp add: is_high_escape is_low_escape next_char_pair)
    moreover have "reread (c # d # s) = joined c d # reread s"
      using True by simp
    ultimately show ?thesis
      using scanstring_step [of c "escape_char d @ ?R" "joined c d" ?R] "3.IH"(1) [OF True]
      by (simp add: prepend_def)
  next
    case False
    have "next_char (escape_char c @ escape_char d @ ?R) = Some (reread1 c, escape_char d @ ?R)"
    proof (cases "is_high c")
      case True
      with False have "\<not> is_low d" by simp
      with True show ?thesis by (rule next_char_high_not_low)
    next
      case False
      then show ?thesis by (rule next_char_escape_free)
    qed
    moreover have "reread (c # d # s) = reread1 c # reread (d # s)"
      using False by auto
    ultimately show ?thesis
      using scanstring_step [of c "escape_char d @ ?R" "reread1 c" "escape_char d @ ?R"]
        "3.IH"(2) [OF False]
      by (simp add: prepend_def)
  qed
qed

lemma joined_parts:
  assumes "is_high h" and "is_low l"
  shows "65536 \<le> joined h l" and "high_of (joined h l) = h" and "low_of (joined h l) = l"
proof -
  define a where "a = h - 55296"
  define b where "b = l - 56320"
  from assms have h: "h = 55296 + a" and l: "l = 56320 + b" and a: "a < 1024" and b: "b < 1024"
    by (auto simp: is_high_def is_low_def a_def b_def)
  show "65536 \<le> joined h l" by (simp add: joined_def)
  show "high_of (joined h l) = h" using a b by (simp add: joined_def high_of_def h l)
  show "low_of (joined h l) = l" using a b by (simp add: joined_def low_of_def h l)
qed

lemma escape_char_joined:
  "is_high h \<Longrightarrow> is_low l \<Longrightarrow> escape_char (joined h l) = u_escape h @ u_escape l"
  using joined_parts [of h l]
  by (simp add: escape_char_def high_of_def low_of_def)

lemma escape_char_reread1: "escape_char (reread1 c) = escape_char c"
proof (cases "c < 65536")
  case True
  then show ?thesis by (simp add: reread1_small)
next
  case False
  then have "escape_char c = u_escape (high_of c) @ u_escape (low_of c)"
    by (simp add: escape_char_def high_of_def low_of_def)
  with False show ?thesis
    by (simp add: reread1_astral escape_char_joined high_of_is_high low_of_is_low)
qed

lemma escape_reread: "concat (map escape_char (reread s)) = concat (map escape_char s)"
  by (induction s rule: reread.induct)
    (simp_all add: escape_char_reread1 escape_char_joined is_high_escape is_low_escape)

lemma scanstring_encoded:
  "scanstring (tl (encode_basestring_ascii s) @ rest) = Some (reread s, rest)"
  "encode_basestring_ascii (reread s) = encode_basestring_ascii s"
  using scanstring_escaped [of s rest]
  by (simp_all add: encode_basestring_ascii_def escape_reread)

section \<open>The decoder on the encoder's text: numbers\<close>

text \<open>
  What follows a value in the encoder's text: nothing, a comma or a newline. A number token
  is read the same with such a text after it.
\<close>

lemma delim_cases:
  assumes "delim r"
  obtains "r = []" | c r' where "r = c # r'" "c = 44 \<or> c = 10"
  using assms by (cases r) auto

lemma takeWhile_digits_delim: "delim r \<Longrightarrow> takeWhile is_digit (a @ r) = takeWhile is_digit a"
  by (induction a) (auto simp: is_digit_def elim: delim_cases)

lemma dropWhile_digits_delim: "delim r \<Longrightarrow> dropWhile is_digit (a @ r) = dropWhile is_digit a @ r"
  by (induction a) (auto simp: is_digit_def elim: delim_cases)

lemma match_integer_delim:
  "match_integer a = Some (i, a') \<Longrightarrow> delim r \<Longrightarrow> match_integer (a @ r) = Some (i, a' @ r)"
  by (cases a) (auto simp: match_integer_def takeWhile_digits_delim dropWhile_digits_delim
      split: if_splits)

lemma match_frac_delim:
  "match_frac a = (f, a') \<Longrightarrow> delim r \<Longrightarrow> match_frac (a @ r) = (f, a' @ r)"
proof (cases a)
  case Nil
  assume "delim r" "match_frac a = (f, a')"
  with Nil show ?thesis
    by (auto simp: match_frac_def elim!: delim_cases)
next
  case (Cons c a1)
  assume "delim r" "match_frac a = (f, a')"
  with Cons show ?thesis
    by (auto simp: match_frac_def takeWhile_digits_delim dropWhile_digits_delim split: if_splits)
qed

lemma match_exp_delim:
  "match_exp a = (e, a') \<Longrightarrow> delim r \<Longrightarrow> match_exp (a @ r) = (e, a' @ r)"
proof (cases a)
  case Nil
  assume "delim r" "match_exp a = (e, a')"
  with Nil show ?thesis
    by (auto simp: match_exp_def is_digit_def elim!: delim_cases)
next
  case (Cons x b)
  assume d: "delim r" and m: "match_exp a = (e, a')"
  show ?thesis
  proof (cases b)
    case Nil
    with Cons d m show ?thesis
      by (auto simp: match_exp_def is_digit_def split: if_splits elim!: delim_cases)
  next
    case (Cons g b1)
    with \<open>a = x # b\<close> d m show ?thesis
      using takeWhile_digits_delim [OF d, of b1] dropWhile_digits_delim [OF d, of b1]
        takeWhile_digits_delim [OF d, of "g # b1"] dropWhile_digits_delim [OF d, of "g # b1"]
      by (simp add: match_exp_def split: if_splits) (auto simp: is_digit_def)
  qed
qed

lemma match_number_Some:
  "match_number s = Some ((i, f, e), r) \<longleftrightarrow>
     (\<exists>r1 r2. (case s of [] \<Rightarrow> None
                | c # t \<Rightarrow> if c = 45 then map_option (\<lambda>(i, r'). (c # i, r')) (match_integer t)
                           else match_integer s) = Some (i, r1)
             \<and> match_frac r1 = (f, r2) \<and> match_exp r2 = (e, r))"
  by (auto simp: match_number_def split: option.splits prod.splits)

lemma match_number_delim:
  assumes "match_number a = Some (l, a')" and "delim r"
  shows "match_number (a @ r) = Some (l, a' @ r)"
proof -
  obtain i f e where l: "l = (i, f, e)" by (cases l)
  from assms(1) obtain r1 r2 where
    i: "(case a of [] \<Rightarrow> None
         | c # t \<Rightarrow> if c = 45 then map_option (\<lambda>(i, r'). (c # i, r')) (match_integer t)
                    else match_integer a) = Some (i, r1)"
    and f: "match_frac r1 = (f, r2)" and e: "match_exp r2 = (e, a')"
    unfolding l match_number_Some by blast
  from i obtain c t where a: "a = c # t" by (cases a) auto
  have "(case a @ r of [] \<Rightarrow> None
         | c # t \<Rightarrow> if c = 45 then map_option (\<lambda>(i, r'). (c # i, r')) (match_integer t)
                    else match_integer (a @ r)) = Some (i, r1 @ r)"
  proof (cases "c = 45")
    case True
    with i a obtain i' where "match_integer t = Some (i', r1)" and "i = c # i'"
      by auto
    with match_integer_delim [OF this(1) assms(2)] a True show ?thesis by simp
  next
    case False
    with i a have "match_integer a = Some (i, r1)" by simp
    from match_integer_delim [OF this assms(2)] a False show ?thesis by simp
  qed
  with match_frac_delim [OF f assms(2)] match_exp_delim [OF e assms(2)] show ?thesis
    unfolding l match_number_Some by blast
qed

lemma match_number_head:
  assumes "match_number s = Some x"
  obtains c t where "s = c # t" and "c = 45 \<or> is_digit c"
proof -
  from assms obtain c t where s: "s = c # t"
    by (cases s) (auto simp: match_number_def)
  have "c = 45 \<or> is_digit c"
  proof (rule ccontr)
    assume "\<not> (c = 45 \<or> is_digit c)"
    then have "match_integer s = None" "c \<noteq> 45"
      by (auto simp: s match_integer_def is_digit_def)
    with assms s show False by (simp add: match_number_def)
  qed
  with s that show thesis by blast
qed

lemma match_integer_parts: "match_integer s = Some (i, r) \<Longrightarrow> i @ r = s"
  by (auto simp: match_integer_def split: list.splits if_splits)

lemma match_frac_parts: "match_frac s = (f, r) \<Longrightarrow> f @ r = s"
  by (auto simp: match_frac_def split: list.splits if_splits)

lemma dropWhile_no_prefix: "takeWhile P xs = [] \<Longrightarrow> dropWhile P xs = xs"
  by (cases xs) (auto split: if_splits)

lemma match_exp_parts: "match_exp s = (e, r) \<Longrightarrow> e @ r = s"
  by (auto simp: match_exp_def dropWhile_no_prefix split: list.splits if_splits)

lemma match_number_parts:
  assumes "match_number s = Some ((i, f, e), r)"
  shows "i @ f @ e @ r = s"
proof -
  from assms obtain r1 r2 where
    i: "(case s of [] \<Rightarrow> None
         | c # t \<Rightarrow> if c = 45 then map_option (\<lambda>(i, r'). (c # i, r')) (match_integer t)
                    else match_integer s) = Some (i, r1)"
    and f: "match_frac r1 = (f, r2)" and e: "match_exp r2 = (e, r)"
    unfolding match_number_Some by blast
  from i have "i @ r1 = s"
    by (auto split: list.splits if_splits dest: match_integer_parts)
  with match_frac_parts [OF f] match_exp_parts [OF e] show ?thesis by auto
qed

lemma scan_literal_number:
  assumes "match_number s = Some ((i, f, e), r)"
  shows "scan_literal s =
           (if f \<noteq> [] \<or> e \<noteq> [] then Inr (PyFloat (FloatLit (i @ f @ e)), r)
            else (case parse_int i of Inl x \<Rightarrow> Inl x | Inr n \<Rightarrow> Inr (PyInt n, r)))"
proof -
  from assms obtain c t where s: "s = c # t" and c: "c = 45 \<or> is_digit c"
    by (rule match_number_head)
  from c have "take 4 s \<noteq> str ''null''" "take 4 s \<noteq> str ''true''" "take 5 s \<noteq> str ''false''"
    by (auto simp: s str_def is_digit_def)
  with assms show ?thesis by (simp add: scan_literal_def)
qed

lemma scan_once_number:
  assumes "match_number s = Some ((i, f, e), r)"
  shows "scan_once d s =
           (if f \<noteq> [] \<or> e \<noteq> [] then Inr (PyFloat (FloatLit (i @ f @ e)), r)
            else (case parse_int i of Inl x \<Rightarrow> Inl x | Inr n \<Rightarrow> Inr (PyInt n, r)))"
proof -
  from assms obtain c t where s: "s = c # t" and c: "c = 45 \<or> is_digit c"
    by (rule match_number_head)
  from c have "c \<noteq> 34" "c \<noteq> 123" "c \<noteq> 91" by (auto simp: is_digit_def)
  then have "scan_once d s = scan_literal s" by (simp add: s)
  with scan_literal_number [OF assms] show ?thesis by simp
qed

lemma nat_digits_digits: "list_all is_digit (nat_digits n)"
proof (induction n rule: nat_digits.induct)
  case (1 n)
  show ?case
  proof (cases "n < 10")
    case True
    then show ?thesis by (simp add: nat_digits.simps [of n] is_digit_def)
  next
    case False
    have "n mod 10 < 10" by simp
    then have "is_digit (48 + n mod 10)" unfolding is_digit_def by linarith
    with False "1.IH" show ?thesis by (simp add: nat_digits.simps [of n])
  qed
qed

lemma nat_digits_head:
  "\<exists>d ds. nat_digits n = d # ds \<and> (if n = 0 then d = 48 \<and> ds = [] else 49 \<le> d \<and> d \<le> 57)"
proof (induction n rule: nat_digits.induct)
  case (1 n)
  show ?case
  proof (cases "n < 10")
    case True
    then show ?thesis by (simp add: nat_digits.simps [of n])
  next
    case False
    then have "n div 10 \<noteq> 0" by simp
    with "1.IH" False obtain d ds where "nat_digits (n div 10) = d # ds" "49 \<le> d" "d \<le> 57"
      by (auto split: if_splits)
    with False show ?thesis by (simp add: nat_digits.simps [of n])
  qed
qed

lemma digits_value_snoc: "digits_value (ds @ [d]) = 10 * digits_value ds + (d - 48)"
  by (simp add: digits_value_def)

lemma digits_value_nat_digits: "digits_value (nat_digits n) = n"
proof (induction n rule: nat_digits.induct)
  case (1 n)
  show ?case
  proof (cases "n < 10")
    case True
    then show ?thesis by (simp add: nat_digits.simps [of n] digits_value_def)
  next
    case False
    with "1.IH" show ?thesis
      by (simp add: nat_digits.simps [of n] digits_value_snoc)
  qed
qed

lemma takeWhile_all: "list_all P xs \<Longrightarrow> takeWhile P xs = xs \<and> dropWhile P xs = []"
  by (induction xs) auto

lemma match_integer_nat_digits: "match_integer (nat_digits n) = Some (nat_digits n, [])"
proof -
  obtain d ds where n: "nat_digits n = d # ds"
    and d: "if n = 0 then d = 48 \<and> ds = [] else 49 \<le> d \<and> d \<le> 57"
    using nat_digits_head by blast
  from nat_digits_digits [of n] n have "list_all is_digit ds" by simp
  note tw = takeWhile_all [OF this]
  show ?thesis
  proof (cases "n = 0")
    case True
    with d show ?thesis unfolding n by (simp add: match_integer_def)
  next
    case False
    with d have "49 \<le> d" "d \<le> 57" "d \<noteq> 48" by simp_all
    with tw show ?thesis unfolding n by (simp add: match_integer_def)
  qed
qed

lemma match_number_int_repr: "match_number (int_repr i) = Some ((int_repr i, [], []), [])"
proof -
  obtain d ds where n: "nat_digits (nat i) = d # ds" and "48 \<le> d"
    using nat_digits_head [of "nat i"] by (auto split: if_splits)
  then have "d \<noteq> 45" by simp
  with n match_integer_nat_digits [of "nat i"] match_integer_nat_digits [of "nat (- i)"]
  show ?thesis
    by (simp add: match_number_def int_repr_def match_frac_def match_exp_def)
qed

lemma int_value_int_repr: "int_value (int_repr i) = i"
proof (cases "i < 0")
  case True
  then show ?thesis
    by (simp add: int_value_def int_repr_def digits_value_nat_digits)
next
  case False
  obtain d ds where n: "nat_digits (nat i) = d # ds" and "48 \<le> d"
    using nat_digits_head [of "nat i"] by (auto split: if_splits)
  then have "d \<noteq> 45" by simp
  with False n digits_value_nat_digits [of "nat i"] show ?thesis
    by (simp add: int_value_def int_repr_def)
qed

lemma token_digits_int_repr: "token_digits (int_repr i) = length (nat_digits (nat \<bar>i\<bar>))"
proof (cases "i < 0")
  case True
  then have "nat \<bar>i\<bar> = nat (- i)" by simp
  with True show ?thesis
    by (simp add: token_digits_def int_repr_def)
next
  case False
  obtain d ds where n: "nat_digits (nat i) = d # ds" and "48 \<le> d"
    using nat_digits_head [of "nat i"] by (auto split: if_splits)
  then have "d \<noteq> 45" by simp
  moreover from False have "nat \<bar>i\<bar> = nat i" by simp
  ultimately show ?thesis
    using False n by (simp add: token_digits_def int_repr_def)
qed

lemma parse_int_int_repr:
  "length (nat_digits (nat \<bar>i\<bar>)) \<le> max_str_digits \<Longrightarrow> parse_int (int_repr i) = Inr i"
  by (simp add: parse_int_def token_digits_int_repr int_value_int_repr)

lemma scan_once_int_repr:
  assumes "delim r" and "length (nat_digits (nat \<bar>i\<bar>)) \<le> max_str_digits"
  shows "scan_once d (int_repr i @ r) = Inr (PyInt i, r)"
  using scan_once_number [OF match_number_delim [OF match_number_int_repr assms(1), of i], of d]
  by (simp add: parse_int_int_repr [OF assms(2)])
section \<open>The decoder on the encoder's text: values\<close>

lemma value_start_facts:
  assumes "value_start c"
  shows "\<not> is_ws c" and "c \<noteq> 93" and "c \<noteq> 125" and "c \<noteq> 65279" and "c \<noteq> 44"
  using assms by (auto simp: value_start_def is_ws_def is_digit_def)

lemma is_float_token_match:
  assumes "is_float_token t"
  obtains i f e where "match_number t = Some ((i, f, e), [])" and "f \<noteq> [] \<or> e \<noteq> []"
    and "i @ f @ e = t"
proof -
  from assms obtain i f e where m: "match_number t = Some ((i, f, e), [])" and fe: "f \<noteq> [] \<or> e \<noteq> []"
    by (auto simp: is_float_token_def split: option.splits)
  from match_number_parts [OF m] have "i @ f @ e = t" by simp
  with m fe that show thesis by blast
qed

lemma scan_once_float_token:
  assumes "is_float_token t" and "delim r"
  shows "scan_once d (t @ r) = Inr (PyFloat (FloatLit t), r)"
proof -
  from assms(1) obtain i f e where m: "match_number t = Some ((i, f, e), [])"
    and fe: "f \<noteq> [] \<or> e \<noteq> []" and t: "i @ f @ e = t"
    by (rule is_float_token_match)
  from match_number_delim [OF m assms(2)] have "match_number (t @ r) = Some ((i, f, e), r)"
    by simp
  from scan_once_number [OF this, of d] fe t show ?thesis by auto
qed

lemma scan_once_constants:
  "scan_once d (str ''null'' @ r) = Inr (PyNone, r)"
  "scan_once d (str ''true'' @ r) = Inr (PyBool True, r)"
  "scan_once d (str ''false'' @ r) = Inr (PyBool False, r)"
  "scan_once d (str ''NaN'' @ r) = Inr (PyFloat NaN, r)"
  "scan_once d (str ''Infinity'' @ r) = Inr (PyFloat PosInf, r)"
  "scan_once d (str ''-Infinity'' @ r) = Inr (PyFloat NegInf, r)"
  by (simp_all add: str_def scan_literal_def match_number_def match_integer_def)

lemma scan_once_floatstr:
  assumes "float_repr_stable fr" and "well_formed (PyFloat x)" and "delim r"
  shows "\<exists>x'. scan_once d (floatstr fr x @ r) = Inr (PyFloat x', r)
              \<and> floatstr fr x' = floatstr fr x"
proof (cases x)
  case (FloatLit l)
  with assms(2) have "is_float_token l" by simp
  with assms(1) consider "fr l = str ''Infinity''" | "fr l = str ''-Infinity''"
    | "is_float_token (fr l)" "fr (fr l) = fr l"
    unfolding float_repr_stable_def by blast
  then show ?thesis
  proof cases
    case 1
    with FloatLit have "scan_once d (floatstr fr x @ r) = Inr (PyFloat PosInf, r)
        \<and> floatstr fr PosInf = floatstr fr x"
      by (simp add: scan_once_constants)
    then show ?thesis by blast
  next
    case 2
    with FloatLit have "scan_once d (floatstr fr x @ r) = Inr (PyFloat NegInf, r)
        \<and> floatstr fr NegInf = floatstr fr x"
      by (simp add: scan_once_constants)
    then show ?thesis by blast
  next
    case 3
    with FloatLit scan_once_float_token [OF 3(1) assms(3)]
    have "scan_once d (floatstr fr x @ r) = Inr (PyFloat (FloatLit (fr l)), r)
        \<and> floatstr fr (FloatLit (fr l)) = floatstr fr x"
      by simp
    then show ?thesis by blast
  qed
next
  case NaN
  then have "scan_once d (floatstr fr x @ r) = Inr (PyFloat NaN, r)"
    by (simp add: scan_once_constants)
  with NaN show ?thesis by blast
next
  case PosInf
  then have "scan_once d (floatstr fr x @ r) = Inr (PyFloat PosInf, r)"
    by (simp add: scan_once_constants)
  with PosInf show ?thesis by blast
next
  case NegInf
  then have "scan_once d (floatstr fr x @ r) = Inr (PyFloat NegInf, r)"
    by (simp add: scan_once_constants)
  with NegInf show ?thesis by blast
qed

lemma floatstr_head:
  assumes "float_repr_stable fr" and "well_formed (PyFloat x)"
  shows "\<exists>c t. floatstr fr x = c # t \<and> value_start c"
proof (cases x)
  case (FloatLit l)
  with assms(2) have "is_float_token l" by simp
  with assms(1) consider "fr l = str ''Infinity''" | "fr l = str ''-Infinity''"
    | "is_float_token (fr l)"
    unfolding float_repr_stable_def by blast
  then show ?thesis
  proof cases
    case 3
    then obtain i f e where "match_number (fr l) = Some ((i, f, e), [])"
      by (rule is_float_token_match)
    then obtain c t where "fr l = c # t" "c = 45 \<or> is_digit c"
      by (rule match_number_head)
    with FloatLit show ?thesis by (auto simp: value_start_def)
  qed (simp_all add: FloatLit str_def value_start_def)
qed (simp_all add: str_def value_start_def)

lemma int_repr_head: "\<exists>c t. int_repr i = c # t \<and> value_start c"
proof -
  obtain d ds where "nat_digits (nat i) = d # ds" "48 \<le> d" "d \<le> 57"
    using nat_digits_head [of "nat i"] by (auto split: if_splits)
  then show ?thesis
    by (auto simp: int_repr_def value_start_def is_digit_def)
qed

lemma iterencode_head:
  assumes "float_repr_stable fr" and "well_formed v"
  shows "\<exists>c t. iterencode fr n v = c # t \<and> value_start c"
proof (cases v)
  case (PyInt i)
  with int_repr_head [of i] show ?thesis by simp
next
  case (PyFloat x)
  with floatstr_head [OF assms(1), of x] assms(2) show ?thesis by simp
qed (simp_all add: str_def value_start_def encode_basestring_ascii_def)

lemma skip_ws_newline_indent: "skip_ws (newline_indent n @ s) = skip_ws s"
  by (induction n) (simp_all add: newline_indent_def is_ws_def)

lemma skip_ws_value:
  assumes "float_repr_stable fr" and "well_formed v"
  shows "skip_ws (iterencode fr n v @ s) = iterencode fr n v @ s"
proof -
  obtain c t where "iterencode fr n v = c # t" "value_start c"
    using iterencode_head [OF assms] by blast
  then show ?thesis by (simp add: value_start_facts)
qed

lemma join_Cons: "join sep (x # xs) = x @ concat (map (\<lambda>y. sep @ y) xs)"
  by (induction xs arbitrary: x) simp_all

lemma delim_newline_indent: "delim (newline_indent n @ s)"
  by (simp add: newline_indent_def)

text \<open>The elements of a list after the first one, each behind its separator.\<close>

lemma parse_array_elements:
  assumes stable: "float_repr_stable fr"
    and wf: "well_formed x" "list_all well_formed xs"
    and IH: "\<And>y r. y \<in> set (x # xs) \<Longrightarrow> delim r \<Longrightarrow>
               \<exists>y'. scan_once d (iterencode fr (Suc n) y @ r) = Inr (y', r)
                    \<and> iterencode fr (Suc n) y' = iterencode fr (Suc n) y"
  shows "\<exists>ys. parse_array d vals
                  (iterencode fr (Suc n) x
                   @ concat (map (\<lambda>y. (44 # newline_indent (Suc n)) @ iterencode fr (Suc n) y) xs)
                   @ newline_indent n @ 93 # rest)
                = Inr (PyList (vals @ ys), rest)
              \<and> map (iterencode fr (Suc n)) ys = map (iterencode fr (Suc n)) (x # xs)"
  using wf IH
proof (induction xs arbitrary: x vals)
  case Nil
  let ?r = "newline_indent n @ 93 # rest"
  obtain x' where x': "scan_once d (iterencode fr (Suc n) x @ ?r) = Inr (x', ?r)"
    and e: "iterencode fr (Suc n) x' = iterencode fr (Suc n) x"
    using Nil.prems(3) [of x ?r] delim_newline_indent by auto
  have "skip_ws ?r = 93 # rest"
    by (simp add: skip_ws_newline_indent is_ws_def)
  with x' have "parse_array d vals (iterencode fr (Suc n) x @ ?r) = Inr (PyList (vals @ [x']), rest)"
    by simp
  with e show ?case by auto
next
  case (Cons z zs)
  let ?tail = "concat (map (\<lambda>y. (44 # newline_indent (Suc n)) @ iterencode fr (Suc n) y) zs)
                 @ newline_indent n @ 93 # rest"
  let ?r = "44 # newline_indent (Suc n) @ iterencode fr (Suc n) z @ ?tail"
  have d: "delim ?r" by simp
  obtain x' where x': "scan_once d (iterencode fr (Suc n) x @ ?r) = Inr (x', ?r)"
    and e: "iterencode fr (Suc n) x' = iterencode fr (Suc n) x"
    using Cons.prems(3) [of x ?r] d by auto
  from Cons.prems(2) have wz: "well_formed z" "list_all well_formed zs" by simp_all
  obtain ys where ys: "parse_array d (vals @ [x']) (iterencode fr (Suc n) z @ ?tail)
                        = Inr (PyList ((vals @ [x']) @ ys), rest)"
    and es: "map (iterencode fr (Suc n)) ys = map (iterencode fr (Suc n)) (z # zs)"
    using Cons.IH [OF wz, of "vals @ [x']"] Cons.prems(3) by auto
  have "skip_ws (newline_indent (Suc n) @ iterencode fr (Suc n) z @ ?tail)
          = iterencode fr (Suc n) z @ ?tail"
    by (simp only: skip_ws_newline_indent skip_ws_value [OF stable wz(1)])
  with x' ys have "parse_array d vals (iterencode fr (Suc n) x @ ?r)
                     = Inr (PyList (vals @ x' # ys), rest)"
    by (simp add: is_ws_def)
  with e es have "parse_array d vals (iterencode fr (Suc n) x @ ?r) = Inr (PyList (vals @ x' # ys), rest)
      \<and> map (iterencode fr (Suc n)) (x' # ys) = map (iterencode fr (Suc n)) (x # z # zs)"
    by simp
  then show ?case by (intro exI [of _ "x' # ys"]) simp
qed

lemma iterencode_PyDict:
  "iterencode fr n (PyDict dct) =
     (if dct = [] then str ''{}''
      else 123 # newline_indent (Suc n)
           @ join (44 # newline_indent (Suc n)) (map (item_text fr n) dct)
           @ newline_indent n @ [125])"
proof -
  have "(\<lambda>(key, val). encode_basestring_ascii key @ [58, 32] @ iterencode fr (Suc n) val)
          = item_text fr n"
    by (auto simp: item_text_def)
  then show ?thesis by simp
qed

lemma encode_basestring_ascii_Cons:
  "encode_basestring_ascii k = 34 # tl (encode_basestring_ascii k)"
  by (simp add: encode_basestring_ascii_def)

lemma parse_object_step:
  assumes "scan_once d (V @ T) = Inr (v', T)" and "skip_ws (V @ T) = V @ T"
  shows "parse_object d pairs (tl (encode_basestring_ascii k) @ [58, 32] @ V @ T) =
           (case skip_ws T of
              [] \<Rightarrow> json_error
            | n2 # r3 \<Rightarrow>
                if n2 = 125 then Inr (PyDict (dict (pairs @ [(reread k, v')])), r3)
                else if n2 \<noteq> 44 then json_error
                else (case skip_ws r3 of
                        [] \<Rightarrow> json_error
                      | n3 # r4 \<Rightarrow>
                          if n3 \<noteq> 34 then json_error
                          else parse_object d (pairs @ [(reread k, v')]) r4))"
proof -
  have ss: "scanstring (tl (encode_basestring_ascii k) @ 58 # 32 # V @ T)
              = Some (reread k, 58 # 32 # V @ T)"
    by (rule scanstring_encoded(1))
  show ?thesis
    by (subst parse_object.simps) (simp add: ss is_ws_def assms)
qed

lemma tl_item_text:
  "tl (item_text fr n (k, v) @ s)
     = tl (encode_basestring_ascii k) @ [58, 32] @ iterencode fr (Suc n) v @ s"
  by (simp add: item_text_def encode_basestring_ascii_def)

lemma parse_object_items:
  assumes stable: "float_repr_stable fr"
    and wf: "well_formed (snd p)" "list_all (\<lambda>q. well_formed (snd q)) ps"
    and IH: "\<And>q r. q \<in> set (p # ps) \<Longrightarrow> delim r \<Longrightarrow>
               \<exists>y'. scan_once d (iterencode fr (Suc n) (snd q) @ r) = Inr (y', r)
                    \<and> iterencode fr (Suc n) y' = iterencode fr (Suc n) (snd q)"
  shows "\<exists>qs. parse_object d pairs
                  (tl (item_text fr n p
                   @ concat (map (\<lambda>q. (44 # newline_indent (Suc n)) @ item_text fr n q) ps)
                   @ newline_indent n @ 125 # rest))
                = Inr (PyDict (dict (pairs @ qs)), rest)
              \<and> map (item_text fr n) qs = map (item_text fr n) (p # ps)
              \<and> map (\<lambda>q. encode_basestring_ascii (fst q)) qs
                  = map (\<lambda>q. encode_basestring_ascii (fst q)) (p # ps)"
  using wf IH
proof (induction ps arbitrary: p pairs)
  case Nil
  obtain k v where p: "p = (k, v)" by (cases p)
  let ?T = "newline_indent n @ 125 # rest"
  obtain v' where v': "scan_once d (iterencode fr (Suc n) v @ ?T) = Inr (v', ?T)"
    and e: "iterencode fr (Suc n) v' = iterencode fr (Suc n) v"
    using Nil.prems(3) [of p ?T] delim_newline_indent p by auto
  have sv: "skip_ws (iterencode fr (Suc n) v @ ?T) = iterencode fr (Suc n) v @ ?T"
    using skip_ws_value [OF stable] Nil.prems(1) p by simp
  have st: "skip_ws ?T = 125 # rest"
    by (simp add: skip_ws_newline_indent is_ws_def)
  have "parse_object d pairs (tl (item_text fr n p @ ?T))
          = Inr (PyDict (dict (pairs @ [(reread k, v')])), rest)"
    unfolding p tl_item_text parse_object_step [OF v' sv] st by simp
  moreover have "item_text fr n (reread k, v') = item_text fr n p"
    by (simp add: item_text_def p e scanstring_encoded(2))
  moreover have "encode_basestring_ascii (reread k) = encode_basestring_ascii (fst p)"
    by (simp add: p scanstring_encoded(2))
  ultimately show ?case
    by (intro exI [of _ "[(reread k, v')]"]) simp
next
  case (Cons z zs)
  obtain k v where p: "p = (k, v)" by (cases p)
  let ?tail = "concat (map (\<lambda>q. (44 # newline_indent (Suc n)) @ item_text fr n q) zs)
                 @ newline_indent n @ 125 # rest"
  let ?T = "44 # newline_indent (Suc n) @ item_text fr n z @ ?tail"
  have d: "delim ?T" by simp
  obtain v' where v': "scan_once d (iterencode fr (Suc n) v @ ?T) = Inr (v', ?T)"
    and e: "iterencode fr (Suc n) v' = iterencode fr (Suc n) v"
    using Cons.prems(3) [of p ?T] d p by auto
  have sv: "skip_ws (iterencode fr (Suc n) v @ ?T) = iterencode fr (Suc n) v @ ?T"
    using skip_ws_value [OF stable] Cons.prems(1) p by simp
  from Cons.prems(2) have wz: "well_formed (snd z)" "list_all (\<lambda>q. well_formed (snd q)) zs"
    by simp_all
  obtain qs where qs: "parse_object d (pairs @ [(reread k, v')]) (tl (item_text fr n z @ ?tail))
                         = Inr (PyDict (dict ((pairs @ [(reread k, v')]) @ qs)), rest)"
    and es: "map (item_text fr n) qs = map (item_text fr n) (z # zs)"
    and ks: "map (\<lambda>q. encode_basestring_ascii (fst q)) qs
               = map (\<lambda>q. encode_basestring_ascii (fst q)) (z # zs)"
    using Cons.IH [OF wz, of "pairs @ [(reread k, v')]"] Cons.prems(3) by auto
  have hd: "item_text fr n z @ ?tail = 34 # tl (item_text fr n z @ ?tail)"
    by (simp add: item_text_def encode_basestring_ascii_def)
  have sk: "skip_ws (newline_indent (Suc n) @ item_text fr n z @ ?tail)
              = 34 # tl (item_text fr n z @ ?tail)"
    unfolding skip_ws_newline_indent by (subst hd) (simp add: is_ws_def)
  have st: "skip_ws ?T = ?T" by (simp add: is_ws_def)
  have "parse_object d pairs (tl (item_text fr n p @ ?T))
          = Inr (PyDict (dict (pairs @ (reread k, v') # qs)), rest)"
    unfolding p tl_item_text parse_object_step [OF v' sv] st
    using sk qs by simp
  moreover have "item_text fr n (reread k, v') = item_text fr n p"
    by (simp add: item_text_def p e scanstring_encoded(2))
  moreover have "encode_basestring_ascii (reread k) = encode_basestring_ascii (fst p)"
    by (simp add: p scanstring_encoded(2))
  ultimately show ?case
    using es ks by (intro exI [of _ "(reread k, v') # qs"]) simp
qed

lemma dict_set_fresh: "k \<notin> fst ` set d \<Longrightarrow> dict_set d k v = d @ [(k, v)]"
  by (induction d) auto

lemma foldl_dict_set:
  "distinct (map fst (acc @ ps)) \<Longrightarrow>
   foldl (\<lambda>d (k, v). dict_set d k v) acc ps = acc @ ps"
proof (induction ps arbitrary: acc)
  case Nil
  then show ?case by simp
next
  case (Cons p ps)
  obtain k v where p: "p = (k, v)" by (cases p)
  from Cons.prems have "k \<notin> fst ` set acc" and "distinct (map fst ((acc @ [p]) @ ps))"
    by (auto simp: p)
  with Cons.IH [of "acc @ [p]"] show ?case
    by (simp add: p dict_set_fresh)
qed

lemma dict_distinct: "distinct (map fst ps) \<Longrightarrow> dict ps = ps"
  using foldl_dict_set [of "[]" ps] by (simp add: dict_def)

lemma distinct_keys_reread:
  assumes "map (\<lambda>q. encode_basestring_ascii (fst q)) qs
             = map (\<lambda>q. encode_basestring_ascii (fst q)) ps"
    and "distinct (map (\<lambda>q. encode_basestring_ascii (fst q)) ps)"
  shows "distinct (map fst qs)"
proof -
  from assms have "distinct (map encode_basestring_ascii (map fst qs))"
    by (simp add: comp_def)
  with distinct_map [of encode_basestring_ascii "map fst qs"] show ?thesis by blast
qed

lemma scan_once_iterencode:
  assumes stable: "float_repr_stable fr"
  shows "well_formed v \<Longrightarrow> within_limits d v \<Longrightarrow> delim r \<Longrightarrow>
         \<exists>v'. scan_once d (iterencode fr n v @ r) = Inr (v', r)
              \<and> iterencode fr n v' = iterencode fr n v"
proof (induction v arbitrary: n r d)
  case PyNone
  have "scan_once d (iterencode fr n PyNone @ r) = Inr (PyNone, r)"
    by (simp add: scan_once_constants)
  then show ?case by blast
next
  case (PyBool b)
  have "scan_once d (iterencode fr n (PyBool b) @ r) = Inr (PyBool b, r)"
    by (simp add: scan_once_constants)
  then show ?case by blast
next
  case (PyInt i)
  from PyInt.prems(2) have "length (nat_digits (nat \<bar>i\<bar>)) \<le> max_str_digits" by simp
  then have "scan_once d (iterencode fr n (PyInt i) @ r) = Inr (PyInt i, r)"
    using scan_once_int_repr [OF PyInt.prems(3)] by simp
  then show ?case by blast
next
  case (PyFloat x)
  from scan_once_floatstr [OF stable PyFloat.prems(1) PyFloat.prems(3)] obtain x' where
    "scan_once d (floatstr fr x @ r) = Inr (PyFloat x', r)" "floatstr fr x' = floatstr fr x"
    by blast
  then have "scan_once d (iterencode fr n (PyFloat x) @ r) = Inr (PyFloat x', r)
      \<and> iterencode fr n (PyFloat x') = iterencode fr n (PyFloat x)"
    by simp
  then show ?case by blast
next
  case (PyStr s)
  have "scan_once d (34 # tl (encode_basestring_ascii s) @ r) = Inr (PyStr (reread s), r)"
    by (simp add: scanstring_encoded(1))
  then have "scan_once d (iterencode fr n (PyStr s) @ r) = Inr (PyStr (reread s), r)"
    by (simp add: encode_basestring_ascii_def)
  moreover have "iterencode fr n (PyStr (reread s)) = iterencode fr n (PyStr s)"
    by (simp add: scanstring_encoded(2))
  ultimately show ?case by blast
next
  case (PyList lst)
  from PyList.prems(2) have d: "d \<noteq> 0" and lim: "list_all (within_limits (d - 1)) lst"
    by simp_all
  show ?case
  proof (cases lst)
    case Nil
    have "scan_once d (iterencode fr n (PyList []) @ r) = Inr (PyList [], r)"
      using d by (simp add: str_def is_ws_def)
    with Nil show ?thesis by blast
  next
    case (Cons x xs)
    from PyList.prems(1) Cons have wf: "well_formed x" "list_all well_formed xs"
      by simp_all
    let ?body = "iterencode fr (Suc n) x
                   @ concat (map (\<lambda>y. (44 # newline_indent (Suc n)) @ iterencode fr (Suc n) y) xs)
                   @ newline_indent n @ 93 # r"
    have IH: "\<exists>y'. scan_once (d - 1) (iterencode fr (Suc n) y @ r') = Inr (y', r')
                 \<and> iterencode fr (Suc n) y' = iterencode fr (Suc n) y"
      if "y \<in> set (x # xs)" "delim r'" for y r'
    proof -
      from that(1) Cons have mem: "y \<in> set lst" by simp
      with PyList.prems(1) lim have "well_formed y" "within_limits (d - 1) y"
        by (simp_all add: list_all_iff)
      from PyList.IH [OF mem this that(2)] show ?thesis by blast
    qed
    obtain ys where ys: "parse_array (d - 1) [] ?body = Inr (PyList ([] @ ys), r)"
      and es: "map (iterencode fr (Suc n)) ys = map (iterencode fr (Suc n)) (x # xs)"
      using parse_array_elements [OF stable wf IH, of "[]" r] by blast
    have shape: "iterencode fr n (PyList lst) @ r = 91 # newline_indent (Suc n) @ ?body"
      by (simp add: Cons join_Cons comp_def)
    obtain c t where c: "?body = c # t" "value_start c"
      using iterencode_head [OF stable wf(1), of "Suc n"] by auto
    have "skip_ws (newline_indent (Suc n) @ ?body) = c # t"
      unfolding skip_ws_newline_indent c(1) using c(2) by (simp add: value_start_facts)
    then have "scan_once d (91 # newline_indent (Suc n) @ ?body) = parse_array (d - 1) [] (c # t)"
      using c(2) d by (simp add: value_start_facts)
    with ys c(1) shape have so: "scan_once d (iterencode fr n (PyList lst) @ r) = Inr (PyList ys, r)"
      by simp
    from es have "ys \<noteq> []" by auto
    with es have "iterencode fr n (PyList ys) = iterencode fr n (PyList lst)"
      by (simp add: Cons)
    with so show ?thesis by blast
  qed
next
  case (PyDict dct)
  from PyDict.prems(2) have d: "d \<noteq> 0"
    and lim: "list_all (\<lambda>q. within_limits (d - 1) (snd q)) dct"
    by (simp_all add: case_prod_unfold)
  show ?case
  proof (cases dct)
    case Nil
    have "scan_once d (iterencode fr n (PyDict []) @ r) = Inr (PyDict [], r)"
      using d by (simp add: str_def is_ws_def)
    with Nil show ?thesis by blast
  next
    case (Cons p ps)
    from PyDict.prems(1) Cons have wf: "well_formed (snd p)" "list_all (\<lambda>q. well_formed (snd q)) ps"
      and dk: "distinct (map (\<lambda>q. encode_basestring_ascii (fst q)) dct)"
      by (simp_all add: case_prod_unfold)
    let ?body = "item_text fr n p
                   @ concat (map (\<lambda>q. (44 # newline_indent (Suc n)) @ item_text fr n q) ps)
                   @ newline_indent n @ 125 # r"
    have IH: "\<exists>y'. scan_once (d - 1) (iterencode fr (Suc n) (snd q) @ r') = Inr (y', r')
                 \<and> iterencode fr (Suc n) y' = iterencode fr (Suc n) (snd q)"
      if "q \<in> set (p # ps)" "delim r'" for q r'
    proof -
      from that(1) Cons have mem: "q \<in> set dct" by simp
      with PyDict.prems(1) lim have w: "well_formed (snd q)" "within_limits (d - 1) (snd q)"
        by (auto simp: list_all_iff case_prod_unfold)
      have "snd q \<in> Basic_BNFs.snds q" by (cases q) simp
      from PyDict.IH [OF mem this w that(2)] show ?thesis by blast
    qed
    obtain qs where qs: "parse_object (d - 1) [] (tl ?body) = Inr (PyDict (dict ([] @ qs)), r)"
      and es: "map (item_text fr n) qs = map (item_text fr n) (p # ps)"
      and ks: "map (\<lambda>q. encode_basestring_ascii (fst q)) qs
                 = map (\<lambda>q. encode_basestring_ascii (fst q)) (p # ps)"
      using parse_object_items [OF stable wf IH, of "[]" r] by blast
    have shape: "iterencode fr n (PyDict dct) @ r = 123 # newline_indent (Suc n) @ ?body"
      unfolding iterencode_PyDict by (simp add: Cons join_Cons comp_def)
    have hd: "?body = 34 # tl ?body"
      by (simp add: item_text_def encode_basestring_ascii_def)
    have "skip_ws (newline_indent (Suc n) @ ?body) = 34 # tl ?body"
      unfolding skip_ws_newline_indent by (subst hd) (simp add: is_ws_def)
    then have "scan_once d (123 # newline_indent (Suc n) @ ?body) = parse_object (d - 1) [] (tl ?body)"
      using d by simp
    moreover have "dict qs = qs"
      using distinct_keys_reread [OF ks] dk Cons by (simp add: dict_distinct)
    ultimately have so: "scan_once d (iterencode fr n (PyDict dct) @ r) = Inr (PyDict qs, r)"
      using qs shape by simp
    from es have "qs \<noteq> []" by auto
    with es have "iterencode fr n (PyDict qs) = iterencode fr n (PyDict dct)"
      unfolding iterencode_PyDict by (simp add: Cons)
    with so show ?thesis by blast
  qed
qed

lemma json_loads_json_dumps:
  assumes "float_repr_stable fr" and "well_formed v" and "within_limits (recursion_depth py) v"
  shows "\<exists>v'. json_loads py (json_dumps fr v) = Inr v' \<and> json_dumps fr v' = json_dumps fr v"
proof -
  obtain v' where v': "scan_once (recursion_depth py) (iterencode fr 0 v @ []) = Inr (v', [])"
    and e: "iterencode fr 0 v' = iterencode fr 0 v"
    using scan_once_iterencode [OF assms(1,2,3), of "[]" 0] by auto
  obtain c t where c: "iterencode fr 0 v = c # t" "value_start c"
    using iterencode_head [OF assms(1,2)] by blast
  from c have "take 1 (iterencode fr 0 v) \<noteq> [65279]" "skip_ws (iterencode fr 0 v) = iterencode fr 0 v"
    by (simp_all add: value_start_facts)
  with v' have "json_loads py (json_dumps fr v) = Inr v'"
    by (simp add: json_loads_def json_dumps_def)
  with e show ?thesis by (auto simp: json_dumps_def)
qed

lemma reread1_scalar: "scalar c \<Longrightarrow> reread1 c = c"
proof (cases "c < 65536")
  case True
  then show ?thesis by (simp add: reread1_small)
next
  case False
  assume "scalar c"
  with False have m: "c - 65536 < 1048576" by (simp add: scalar_def)
  define m where "m = c - 65536"
  with m have "m div 1024 < 1024" by simp
  then have "m div 1024 mod 1024 * 1024 + m mod 1024 = m" by simp
  with False show ?thesis
    by (simp add: reread1_astral joined_def high_of_def low_of_def m_def)
qed

lemma reread_scalar: "list_all scalar s \<Longrightarrow> reread s = s"
  by (induction s rule: reread.induct)
    (auto simp: reread1_scalar scalar_def is_high_def)

lemma encode_scalar_inj:
  assumes "list_all scalar s" and "list_all scalar t"
    and "encode_basestring_ascii s = encode_basestring_ascii t"
  shows "s = t"
proof -
  from assms(3) have "scanstring (tl (encode_basestring_ascii s) @ []) = scanstring (tl (encode_basestring_ascii t) @ [])"
    by simp
  then have "reread s = reread t"
    unfolding scanstring_encoded(1) by simp
  with assms(1,2) show ?thesis by (simp add: reread_scalar)
qed

text \<open>Keys without surrogates: different keys have different JSON texts.\<close>

lemma scalar_keys_render_apart:
  assumes "distinct (map fst dct)" and "list_all (\<lambda>p. list_all scalar (fst p)) dct"
  shows "distinct (map (\<lambda>(key, val). encode_basestring_ascii key) dct)"
proof -
  have "inj_on encode_basestring_ascii (set (map fst dct))"
    using assms(2) by (auto intro!: inj_onI encode_scalar_inj simp: list_all_iff)
  with assms(1) have "distinct (map encode_basestring_ascii (map fst dct))"
    by (simp only: distinct_map)
  then show ?thesis by (simp add: comp_def case_prod_unfold)
qed

section \<open>The decoder at the limits of the interpreter\<close>

text \<open>
  A text of \<open>n\<close> digits \<^verbatim>\<open>1\<close> is one integer token; with more than \<open>max_str_digits\<close> digits
  its conversion raises the \<^verbatim>\<open>ValueError\<close>. A text that opens more arrays than the decoder
  can enter raises the \<^verbatim>\<open>RecursionError\<close>.
\<close>

lemma match_number_ones:
  "match_number (replicate (Suc n) 49) = Some ((replicate (Suc n) 49, [], []), [])"
proof -
  have "list_all is_digit (replicate n 49)"
    by (simp add: list_all_iff is_digit_def)
  from takeWhile_all [OF this] show ?thesis
    by (simp add: match_number_def match_integer_def match_frac_def match_exp_def)
qed

lemma scan_once_ones:
  "max_str_digits < Suc n \<Longrightarrow> scan_once d (replicate (Suc n) 49) = Inl (digits_error (Suc n))"
  using scan_once_number [OF match_number_ones, of d n]
  by (simp add: parse_int_def token_digits_def)

lemma json_loads_ones:
  assumes "max_str_digits < Suc n"
  shows "json_loads py (replicate (Suc n) 49) = Inl (digits_error (Suc n))"
proof -
  have "skip_ws (replicate (Suc n) 49) = replicate (Suc n) 49"
    by (simp add: is_ws_def)
  with scan_once_ones [OF assms] show ?thesis
    unfolding json_loads_def by simp
qed

lemma scan_once_brackets: "scan_once d (replicate (Suc d) 91 @ r) = Inl array_depth_error"
proof (induction d)
  case 0
  show ?case by simp
next
  case (Suc d)
  have "skip_ws (replicate (Suc d) 91 @ r) = 91 # replicate d 91 @ r"
    by (simp add: is_ws_def)
  with Suc show ?case by simp
qed

lemma json_loads_brackets:
  "json_loads py (replicate (Suc (recursion_depth py)) 91) = Inl array_depth_error"
proof -
  have "skip_ws (replicate (Suc (recursion_depth py)) 91) = replicate (Suc (recursion_depth py)) 91"
    by (simp add: is_ws_def)
  with scan_once_brackets [of "recursion_depth py" "[]"] show ?thesis
    unfolding json_loads_def by simp
qed

lemma format_text_raises:
  "json_loads py t = Inl e \<Longrightarrow> \<forall>m. e \<noteq> JSONDecodeError m \<Longrightarrow> \<forall>m. e \<noteq> TypeError m \<Longrightarrow>
   format_text py t = Inl e"
  by (cases e) (simp_all add: format_text_def)

lemma digits_error_4301:
  "digits_error 4301 =
     ValueError (str ''Exceeds the limit (4300 digits) for integer string conversion: value has 4301 digits; use sys.set_int_max_str_digits() to increase the limit'')"
  by (simp add: digits_error_def max_str_digits_def nat_digits.simps str_def)

lemma format_text_4301_ones: "format_text py (replicate 4301 49) = Inl (digits_error 4301)"
proof -
  have n: "(4301 :: nat) = Suc 4300" by simp
  have "json_loads py (replicate (Suc 4300) 49) = Inl (digits_error (Suc 4300))"
    by (rule json_loads_ones) (simp add: max_str_digits_def)
  then have "json_loads py (replicate 4301 49) = Inl (digits_error 4301)"
    by (simp only: n)
  then show ?thesis
    by (rule format_text_raises) (simp_all add: digits_error_def)
qed

lemma format_text_1001_brackets:
  "format_text example_interp (replicate 1001 91) = Inl array_depth_error"
proof -
  have n: "(1001 :: nat) = Suc (recursion_depth example_interp)"
    by (simp add: example_interp_def)
  have "json_loads example_interp (replicate 1001 91) = Inl array_depth_error"
    unfolding n by (rule json_loads_brackets)
  then show ?thesis
    by (rule format_text_raises) (simp_all add: array_depth_error_def)
qed

section \<open>The Normalizer renders the text blocks in order\<close>

text \<open>
  C6 does not hold of the code, by the defect of the next section: on a text block on which
  \<^verbatim>\<open>json.loads\<close> raises an exception that line 34 does not catch, \<open>format_content\<close> raises, and
  no block of the sequence is rendered. Below, a second block of 4301 digits makes \<^verbatim>\<open>json.loads\<close>
  raise a \<^verbatim>\<open>ValueError\<close>; the claim gives the output \<^verbatim>\<open>plain text\<close>, a newline and the digits.
\<close>

theorem rendering_stops_at_a_raising_block:
  "format_content example_interp [TextContent (str ''plain text''), TextContent (replicate 4301 49)]
     = Inl (ValueError (str ''Exceeds the limit (4300 digits) for integer string conversion: value has 4301 digits; use sys.set_int_max_str_digits() to increase the limit''))"
proof -
  have "format_text example_interp (str ''plain text'') = Inr (str ''plain text'')"
    by (simp add: eval_simps)
  then show ?thesis
    by (simp add: format_content_def format_text_4301_ones digits_error_4301)
qed

text \<open>
  Apart from that defect the claim holds. For every sequence of content blocks each of whose
  text blocks the Normalizer renders when it is given alone, the output of \<open>format_content\<close>
  is made of the renderings of exactly the blocks tagged \<^verbatim>\<open>text\<close>, each as the Normalizer
  renders that block alone, in input order, every one but the last followed by one newline;
  blocks of other variants contribute nothing, and the empty sequence gives the empty
  string.
\<close>

lemma format_content_text_blocks_in_order:
  assumes "\<forall>t\<in>set (text_payloads content). \<exists>r. format_content py [TextContent t] = Inr r"
  shows "format_content py [] = Inr []
   \<and> (\<exists>ts. map (\<lambda>t. format_content py [TextContent t]) (text_payloads content) = map Inr ts
           \<and> format_content py content
               = Inr (if ts = [] then []
                      else concat (map (\<lambda>r. r @ [10]) (butlast ts)) @ last ts))"
proof -
  from assms have "\<forall>t\<in>set (text_payloads content). \<exists>r. format_text py t = Inr r"
    by (simp add: format_content_single)
  then obtain ts where "format_loop py [] content = Inr ([] @ ts)"
    and "map (format_text py) (text_payloads content) = map Inr ts"
    using format_loop_Inr by blast
  then have "map (\<lambda>t. format_content py [TextContent t]) (text_payloads content) = map Inr ts"
    and "format_content py content = Inr (join [10] ts)"
    by (simp_all add: format_content_single) (simp add: format_content_def)
  moreover have "format_content py [] = Inr []"
    by (simp add: format_content_def)
  ultimately show ?thesis
    unfolding join_lines [of "[10]" ts] by blast
qed

text \<open>
  An object, an image, a text that is not JSON and an array: three renderings, two newlines
  between them.
\<close>

lemma format_content_text_blocks_in_order_example:
  \<open>format_content example_interp [TextContent (str ''{"a": 1}'')]
     = Inr (str ''{\<newline>  "a": 1\<newline>}'')
   \<and> format_content example_interp [TextContent (str ''plain text'')] = Inr (str ''plain text'')
   \<and> format_content example_interp [TextContent (str ''[1, 2]'')]
     = Inr (str ''[\<newline>  1,\<newline>  2\<newline>]'')
   \<and> format_content example_interp
        [TextContent (str ''{"a": 1}''), ImageContent,
         TextContent (str ''plain text''), TextContent (str ''[1, 2]'')]
     = Inr (str ''{\<newline>  "a": 1\<newline>}\<newline>plain text\<newline>[\<newline>  1,\<newline>  2\<newline>]'')\<close>
proof -
  let ?content = \<open>[TextContent (str ''{"a": 1}''), ImageContent,
                    TextContent (str ''plain text''), TextContent (str ''[1, 2]'')]\<close>
  have r1: \<open>format_content example_interp [TextContent (str ''{"a": 1}'')]
              = Inr (str ''{\<newline>  "a": 1\<newline>}'')\<close>
    by (simp add: eval_simps)
  have r2: "format_content example_interp [TextContent (str ''plain text'')]
              = Inr (str ''plain text'')"
    by (simp add: eval_simps)
  have r3: "format_content example_interp [TextContent (str ''[1, 2]'')]
              = Inr (str ''[\<newline>  1,\<newline>  2\<newline>]'')"
    by (simp add: eval_simps)
  have h: "\<forall>t\<in>set (text_payloads ?content). \<exists>r. format_content example_interp [TextContent t] = Inr r"
    using r1 r2 r3 by simp
  from format_content_text_blocks_in_order [OF h] obtain ts where
    m: "map (\<lambda>t. format_content example_interp [TextContent t]) (text_payloads ?content) = map Inr ts"
    and out: "format_content example_interp ?content
               = Inr (if ts = [] then []
                      else concat (map (\<lambda>r. r @ [10]) (butlast ts)) @ last ts)"
    by blast
  from m r1 r2 r3
  have "ts = [str ''{\<newline>  \"a\": 1\<newline>}'', str ''plain text'', str ''[\<newline>  1,\<newline>  2\<newline>]'']"
    by (auto simp: Cons_eq_map_conv)
  with out have "format_content example_interp ?content
     = Inr (str ''{\<newline>  \"a\": 1\<newline>}\<newline>plain text\<newline>[\<newline>  1,\<newline>  2\<newline>]'')"
    by (simp add: str_def)
  with r1 r2 r3 show ?thesis by (simp only: simp_thms)
qed

section \<open>The Normalizer raises at the limits of the interpreter\<close>

text \<open>
  C7 does not hold of the code. The \<^verbatim>\<open>except\<close> clause of \<open>format_content\<close> (line 34) catches
  \<^verbatim>\<open>JSONDecodeError\<close> and \<^verbatim>\<open>TypeError\<close>; \<^verbatim>\<open>json.loads\<close> also raises a \<^verbatim>\<open>ValueError\<close> on an integer
  of more than 4300 digits and a \<^verbatim>\<open>RecursionError\<close> on arrays or objects nested deeper than
  the interpreter allows. On a text block of 4301 digits, and on one of 1001 opening
  brackets, the Normalizer raises instead of passing the text through.
\<close>

theorem format_content_raises_at_interpreter_limits:
  "format_content example_interp [TextContent (replicate 4301 49)]
     = Inl (ValueError (str ''Exceeds the limit (4300 digits) for integer string conversion: value has 4301 digits; use sys.set_int_max_str_digits() to increase the limit''))
   \<and> format_content example_interp [TextContent (replicate 1001 91)]
     = Inl (RecursionError (str ''maximum recursion depth exceeded while decoding a JSON array from a unicode string''))"
  by (simp add: format_content_single format_text_4301_ones format_text_1001_brackets
      digits_error_4301 array_depth_error_def)

text \<open>
  Where \<^verbatim>\<open>json.loads\<close> raises nothing but a \<^verbatim>\<open>JSONDecodeError\<close> on the text payloads, the
  Normalizer returns a string; a payload that is not JSON is passed through as it is, and a
  block that is not a text block is left out.
\<close>

lemma format_content_returns:
  assumes "\<forall>t\<in>set (text_payloads content). \<forall>e. json_loads py t = Inl e \<longrightarrow> (\<exists>m. e = JSONDecodeError m)"
  shows "\<exists>s. format_content py content = Inr s"
proof -
  have "\<exists>r. format_text py t = Inr r" if "t \<in> set (text_payloads content)" for t
  proof (cases "json_loads py t")
    case (Inl e)
    with assms that obtain m where "e = JSONDecodeError m" by blast
    with Inl show ?thesis by (simp add: format_text_def)
  next
    case (Inr parsed)
    then show ?thesis by (simp add: format_text_def)
  qed
  then obtain ts where "format_loop py [] content = Inr ([] @ ts)"
    using format_loop_Inr [of content py "[]"] by blast
  then show ?thesis by (simp add: format_content_def)
qed

lemma format_content_leaves_out:
  assumes "\<forall>t. c \<noteq> TextContent t"
  shows "format_content py (xs @ c # ys) = format_content py (xs @ ys)"
proof -
  have "format_loop py acc (c # ys) = format_loop py acc ys" for acc
    using assms by (cases c) simp_all
  then show ?thesis
    by (simp add: format_content_def format_loop_append split: sum.splits)
qed

section \<open>The envelope unwrap\<close>



section \<open>The removal of null fields\<close>




section \<open>The unwrap is applied once\<close>



section \<open>Idempotence of the indented rendering\<close>

text \<open>
  C8, as the specification states it, fails. The text below is an object with two keys, the
  first written as the escape of a high surrogate followed by a low surrogate character, the
  second as the character U+1F600 that this pair encodes. The Normalizer renders both keys
  as the same escape pair; parsing that output gives one key, and rendering it again gives
  a shorter string.
\<close>

theorem rendering_changes_on_colliding_keys:
  \<open>format_content example_interp
      [TextContent (str ''{"'' @ [92] @ str ''ud83d'' @ [56832] @ str ''": 1, "'' @ [128512]
                    @ str ''": 2}'')]
     = Inr (str ''{\<newline>  "'' @ [92] @ str ''ud83d'' @ [92] @ str ''ude00": 1,\<newline>  "''
            @ [92] @ str ''ud83d'' @ [92] @ str ''ude00": 2\<newline>}'')
   \<and> json_loads example_interp (str ''{\<newline>  "'' @ [92] @ str ''ud83d'' @ [92] @ str ''ude00": 1,\<newline>  "''
                   @ [92] @ str ''ud83d'' @ [92] @ str ''ude00": 2\<newline>}'')
     = Inr (PyDict [([128512], PyInt 2)])
   \<and> json_dumps (float_repr example_interp) (PyDict [([128512], PyInt 2)])
     = str ''{\<newline>  "'' @ [92] @ str ''ud83d'' @ [92] @ str ''ude00": 2\<newline>}''
   \<and> json_dumps (float_repr example_interp) (PyDict [([128512], PyInt 2)])
     \<noteq> str ''{\<newline>  "'' @ [92] @ str ''ud83d'' @ [92] @ str ''ude00": 1,\<newline>  "''
         @ [92] @ str ''ud83d'' @ [92] @ str ''ude00": 2\<newline>}''\<close>
proof -
  have 1: \<open>format_content example_interp
      [TextContent (str ''{"'' @ [92] @ str ''ud83d'' @ [56832] @ str ''": 1, "'' @ [128512]
                    @ str ''": 2}'')]
     = Inr (str ''{\<newline>  "'' @ [92] @ str ''ud83d'' @ [92] @ str ''ude00": 1,\<newline>  "''
            @ [92] @ str ''ud83d'' @ [92] @ str ''ude00": 2\<newline>}'')\<close>
    by (simp add: eval_simps decode_uXXXX_def hexval_def u_escape_def hexdigit_def)
  have 2: \<open>json_loads example_interp (str ''{\<newline>  "'' @ [92] @ str ''ud83d'' @ [92] @ str ''ude00": 1,\<newline>  "''
                   @ [92] @ str ''ud83d'' @ [92] @ str ''ude00": 2\<newline>}'')
     = Inr (PyDict [([128512], PyInt 2)])\<close>
    by (simp add: eval_simps decode_uXXXX_def hexval_def)
  have 3: \<open>json_dumps (float_repr example_interp) (PyDict [([128512], PyInt 2)])
     = str ''{\<newline>  "'' @ [92] @ str ''ud83d'' @ [92] @ str ''ude00": 2\<newline>}''\<close>
    by (simp add: eval_simps u_escape_def hexdigit_def)
  have 4: \<open>str ''{\<newline>  "'' @ [92] @ str ''ud83d'' @ [92] @ str ''ude00": 2\<newline>}''
     \<noteq> str ''{\<newline>  "'' @ [92] @ str ''ud83d'' @ [92] @ str ''ude00": 1,\<newline>  "''
         @ [92] @ str ''ud83d'' @ [92] @ str ''ude00": 2\<newline>}''\<close>
    by (simp add: str_def)
  from 1 2 3 4 show ?thesis by (simp only: simp_thms)
qed

text \<open>
  C8, amended. For every well-formed structured value (its floats are floats of float
  tokens, and in each of its objects no two keys have the same JSON text) within the limits
  of the interpreter (no integer of more than 4300 digits, arrays and objects nested no
  deeper than the decoder can enter), and given that the text of a float reads back to a
  float with the same text, the rendered output (\<^verbatim>\<open>json.dumps\<close> with indent 2) parses, and
  rendering the parsed value again yields a string identical to the first rendering.
\<close>

theorem indented_rendering_idempotent:
  assumes "float_repr_stable fr" and "well_formed v" and "within_limits (recursion_depth py) v"
  shows "\<exists>v'. json_loads py (json_dumps fr v) = Inr v' \<and> json_dumps fr v' = json_dumps fr v"
  using assms by (rule json_loads_json_dumps)

text \<open>
  A value with a float, a negative integer, a string with a character above \<^verbatim>\<open>0xFFFF\<close>, the
  constants and empty containers; the float text \<^verbatim>\<open>1.50\<close> is written \<^verbatim>\<open>1.5\<close>.
\<close>

theorem indented_rendering_idempotent_witness:
  "float_repr_stable (\<lambda>l. if l = str ''1.50'' then str ''1.5'' else l)
   \<and> well_formed
        (PyDict [(str ''a'', PyList [PyFloat (FloatLit (str ''1.50'')), PyInt (- 2),
                                      PyStr [233, 128512], PyNone, PyBool True, PyList [],
                                      PyDict []]),
                 (str ''b'', PyFloat NaN)])
   \<and> within_limits (recursion_depth example_interp)
        (PyDict [(str ''a'', PyList [PyFloat (FloatLit (str ''1.50'')), PyInt (- 2),
                                      PyStr [233, 128512], PyNone, PyBool True, PyList [],
                                      PyDict []]),
                 (str ''b'', PyFloat NaN)])
   \<and> (\<exists>v'. json_loads example_interp (json_dumps (\<lambda>l. if l = str ''1.50'' then str ''1.5'' else l)
        (PyDict [(str ''a'', PyList [PyFloat (FloatLit (str ''1.50'')), PyInt (- 2),
                                      PyStr [233, 128512], PyNone, PyBool True, PyList [],
                                      PyDict []]),
                 (str ''b'', PyFloat NaN)])) = Inr v'
       \<and> json_dumps (\<lambda>l. if l = str ''1.50'' then str ''1.5'' else l) v'
         = json_dumps (\<lambda>l. if l = str ''1.50'' then str ''1.5'' else l)
        (PyDict [(str ''a'', PyList [PyFloat (FloatLit (str ''1.50'')), PyInt (- 2),
                                      PyStr [233, 128512], PyNone, PyBool True, PyList [],
                                      PyDict []]),
                 (str ''b'', PyFloat NaN)]))"
proof -
  let ?fr = "\<lambda>l. if l = str ''1.50'' then str ''1.5'' else l"
  let ?v = "PyDict [(str ''a'', PyList [PyFloat (FloatLit (str ''1.50'')), PyInt (- 2),
                                      PyStr [233, 128512], PyNone, PyBool True, PyList [],
                                      PyDict []]),
                 (str ''b'', PyFloat NaN)]"
  have t1: "is_float_token (str ''1.5'')" and t2: "is_float_token (str ''1.50'')"
    by (simp_all add: is_float_token_def match_number_def match_integer_def match_frac_def
        match_exp_def is_digit_def str_def)
  have ne: "str ''1.5'' \<noteq> str ''1.50''" by (simp add: str_def)
  have s: "float_repr_stable ?fr"
    unfolding float_repr_stable_def using t1 ne by auto
  have w: "well_formed ?v"
    using t2 by (simp add: encode_basestring_ascii_def escape_char_def str_def)
  have l: "within_limits (recursion_depth example_interp) ?v"
    by (simp add: example_interp_def max_str_digits_def nat_digits.simps)
  from indented_rendering_idempotent [OF s w l] s w l show ?thesis by blast
qed

section \<open>The arguments of \<^verbatim>\<open>get_regional_availability\<close>\<close>

text \<open>
  C3, as the specification states it, fails: whether the key \<^verbatim>\<open>filters\<close> is set is decided by
  the truth value of the caller's argument before it is decoded, not by the list it ends up
  as. The string \<^verbatim>\<open>"[]"\<close> is non-empty and decodes to the empty list, so the call carries
  \<^verbatim>\<open>filters: []\<close>.
\<close>

theorem filters_key_with_empty_list:
  \<open>availability_args example_interp (str ''api'') (str ''us-east-1'') (Some (FiltersStr (str ''[]'')))
     = Inr [(str ''resource_type'', PyStr (str ''api'')), (str ''region'', PyStr (str ''us-east-1'')),
            (str ''filters'', PyList [])]\<close>
  by (simp add: availability_args_def eval_simps)

text \<open>
  C3, amended. Where the caller's \<^verbatim>\<open>filters\<close> is not a non-empty string on which \<^verbatim>\<open>json.loads\<close>
  raises an exception other than \<^verbatim>\<open>JSONDecodeError\<close>, the upstream argument set is built and
  contains \<^verbatim>\<open>resource_type\<close> and \<^verbatim>\<open>region\<close>. It has a key \<^verbatim>\<open>filters\<close> if and only if the caller's
  \<^verbatim>\<open>filters\<close> is a non-empty list or a non-empty string. A non-empty list is passed as it
  is; a non-empty string is JSON-decoded, and the decoded list is passed if it decodes to a
  list, the one-element list of the string itself if it decodes to something else or is
  not JSON.
\<close>

theorem availability_args_filters:
  assumes "\<forall>s e. filters = Some (FiltersStr s) \<and> s \<noteq> [] \<and> json_loads py s = Inl e
             \<longrightarrow> (\<exists>m. e = JSONDecodeError m)"
  shows "\<exists>args. availability_args py resource_type region filters = Inr args
     \<and> dict_get args (str ''resource_type'') = Some (PyStr resource_type)
     \<and> dict_get args (str ''region'') = Some (PyStr region)
     \<and> (dict_get args (str ''filters'') \<noteq> None \<longleftrightarrow>
          (\<exists>l. filters = Some (FiltersList l) \<and> l \<noteq> []) \<or> (\<exists>s. filters = Some (FiltersStr s) \<and> s \<noteq> []))
     \<and> (\<forall>l. filters = Some (FiltersList l) \<and> l \<noteq> [] \<longrightarrow>
            dict_get args (str ''filters'') = Some (PyList (map PyStr l)))
     \<and> (\<forall>s parsed. filters = Some (FiltersStr s) \<and> s \<noteq> [] \<and> json_loads py s = Inr (PyList parsed) \<longrightarrow>
            dict_get args (str ''filters'') = Some (PyList parsed))
     \<and> (\<forall>s. filters = Some (FiltersStr s) \<and> s \<noteq> [] \<and> (\<forall>parsed. json_loads py s \<noteq> Inr (PyList parsed)) \<longrightarrow>
            dict_get args (str ''filters'') = Some (PyList [PyStr s]))"
proof (cases "truthy filters")
  case False
  then have "availability_args py resource_type region filters
               = Inr [(str ''resource_type'', PyStr resource_type), (str ''region'', PyStr region)]"
    by (simp add: availability_args_falsy)
  moreover from False have "\<not> ((\<exists>l. filters = Some (FiltersList l) \<and> l \<noteq> [])
                              \<or> (\<exists>s. filters = Some (FiltersStr s) \<and> s \<noteq> []))"
    by auto
  ultimately show ?thesis
    by (auto simp: dict_get_def str_def)
next
  case True
  then obtain f where f: "filters = Some f" by (cases filters) auto
  show ?thesis
  proof (cases f)
    case (FiltersList l)
    with True f show ?thesis
      by (simp add: availability_args_truthy dict_get_def str_def)
  next
    case (FiltersStr s)
    with True f have s: "s \<noteq> []" by simp
    have "\<exists>fs. normalize_filters py (FiltersStr s) = Inr fs
            \<and> (\<forall>parsed. json_loads py s = Inr (PyList parsed) \<longrightarrow> fs = PyList parsed)
            \<and> ((\<forall>parsed. json_loads py s \<noteq> Inr (PyList parsed)) \<longrightarrow> fs = PyList [PyStr s])"
    proof (cases "json_loads py s")
      case (Inl e)
      with assms f FiltersStr s obtain m where "e = JSONDecodeError m" by blast
      with Inl show ?thesis by simp
    next
      case (Inr v)
      then show ?thesis by (cases v) simp_all
    qed
    then obtain fs where fs: "normalize_filters py (FiltersStr s) = Inr fs"
      and l: "\<forall>parsed. json_loads py s = Inr (PyList parsed) \<longrightarrow> fs = PyList parsed"
      and w: "(\<forall>parsed. json_loads py s \<noteq> Inr (PyList parsed)) \<longrightarrow> fs = PyList [PyStr s]"
      by blast
    from True f FiltersStr fs
    have "availability_args py resource_type region filters
            = Inr [(str ''resource_type'', PyStr resource_type), (str ''region'', PyStr region),
                   (str ''filters'', fs)]"
      by (simp add: availability_args_truthy)
    with f FiltersStr s l w show ?thesis
      by (simp add: dict_get_def str_def)
  qed
qed

text \<open>
  The inputs of the specification: \<^verbatim>\<open>"abc"\<close> gives \<^verbatim>\<open>["abc"]\<close>, the string \<^verbatim>\<open>["a","b"]\<close> gives
  the list of \<^verbatim>\<open>"a"\<close> and \<^verbatim>\<open>"b"\<close>, and the empty list and no argument give no key.
\<close>

theorem availability_args_filters_witness:
  \<open>json_loads example_interp (str ''abc'') = Inl (JSONDecodeError [])
   \<and> (\<exists>args. availability_args example_interp (str ''api'') (str ''us-east-1'') (Some (FiltersStr (str ''abc''))) = Inr args
      \<and> dict_get args (str ''filters'') = Some (PyList [PyStr (str ''abc'')]))
   \<and> json_loads example_interp (str ''["a","b"]'') = Inr (PyList [PyStr (str ''a''), PyStr (str ''b'')])
   \<and> (\<exists>args. availability_args example_interp (str ''api'') (str ''us-east-1'') (Some (FiltersStr (str ''["a","b"]''))) = Inr args
      \<and> dict_get args (str ''filters'') = Some (PyList [PyStr (str ''a''), PyStr (str ''b'')]))
   \<and> (\<exists>args. availability_args example_interp (str ''api'') (str ''us-east-1'') (Some (FiltersList [str ''a''])) = Inr args
      \<and> dict_get args (str ''filters'') = Some (PyList [PyStr (str ''a'')]))
   \<and> (\<exists>args. availability_args example_interp (str ''api'') (str ''us-east-1'') (Some (FiltersList [])) = Inr args
      \<and> dict_get args (str ''filters'') = None)
   \<and> (\<exists>args. availability_args example_interp (str ''api'') (str ''us-east-1'') None = Inr args
      \<and> dict_get args (str ''filters'') = None)\<close>
proof -
  let ?py = example_interp
  have abc: "json_loads ?py (str ''abc'') = Inl (JSONDecodeError [])"
    by (simp add: eval_simps)
  have ab: \<open>json_loads ?py (str ''["a","b"]'') = Inr (PyList [PyStr (str ''a''), PyStr (str ''b'')])\<close>
    by (simp add: eval_simps)
  have ne: \<open>str ''abc'' \<noteq> []\<close> \<open>str ''["a","b"]'' \<noteq> []\<close> "[str ''a''] \<noteq> []"
    by (simp_all add: str_def)
  have h1: "\<forall>s e. Some (FiltersStr (str ''abc'')) = Some (FiltersStr s) \<and> s \<noteq> []
                  \<and> json_loads ?py s = Inl e \<longrightarrow> (\<exists>m. e = JSONDecodeError m)"
    using abc by auto
  have h2: \<open>\<forall>s e. Some (FiltersStr (str ''["a","b"]'')) = Some (FiltersStr s) \<and> s \<noteq> []
                  \<and> json_loads ?py s = Inl e \<longrightarrow> (\<exists>m. e = JSONDecodeError m)\<close>
    using ab by auto
  have h3: "\<forall>s e. Some (FiltersList l) = Some (FiltersStr s) \<and> s \<noteq> []
                  \<and> json_loads ?py s = Inl e \<longrightarrow> (\<exists>m. e = JSONDecodeError m)" for l
    by simp
  have h5: "\<forall>s e. None = Some (FiltersStr s) \<and> s \<noteq> []
                  \<and> json_loads ?py s = Inl e \<longrightarrow> (\<exists>m. e = JSONDecodeError m)"
    by simp
  have 1: \<open>\<exists>args. availability_args ?py (str ''api'') (str ''us-east-1'') (Some (FiltersStr (str ''abc''))) = Inr args
      \<and> dict_get args (str ''filters'') = Some (PyList [PyStr (str ''abc'')])\<close>
    using availability_args_filters [OF h1, of "str ''api''" "str ''us-east-1''"]
      abc ne(1) by fastforce
  have 2: \<open>\<exists>args. availability_args ?py (str ''api'') (str ''us-east-1'') (Some (FiltersStr (str ''["a","b"]''))) = Inr args
      \<and> dict_get args (str ''filters'') = Some (PyList [PyStr (str ''a''), PyStr (str ''b'')])\<close>
    using availability_args_filters [OF h2, of "str ''api''" "str ''us-east-1''"]
      ab ne(2) by blast
  have 3: \<open>\<exists>args. availability_args ?py (str ''api'') (str ''us-east-1'') (Some (FiltersList [str ''a''])) = Inr args
      \<and> dict_get args (str ''filters'') = Some (PyList [PyStr (str ''a'')])\<close>
    using availability_args_filters [OF h3 [of "[str ''a'']"], of "str ''api''" "str ''us-east-1''"]
      ne(3) by fastforce
  have 4: \<open>\<exists>args. availability_args ?py (str ''api'') (str ''us-east-1'') (Some (FiltersList [])) = Inr args
      \<and> dict_get args (str ''filters'') = None\<close>
    using availability_args_filters [OF h3 [of "[]"], of "str ''api''" "str ''us-east-1''"]
    by fastforce
  have 5: \<open>\<exists>args. availability_args ?py (str ''api'') (str ''us-east-1'') None = Inr args
      \<and> dict_get args (str ''filters'') = None\<close>
    using availability_args_filters [OF h5, of "str ''api''" "str ''us-east-1''"]
    by fastforce
  from abc ab 1 2 3 4 5 show ?thesis by blast
qed


section \<open>The empty string as \<^verbatim>\<open>filters\<close>\<close>

text \<open>
  C10. In \<^verbatim>\<open>get_regional_availability\<close> the empty string as \<^verbatim>\<open>filters\<close> behaves as no
  \<^verbatim>\<open>filters\<close>: the argument set has the keys \<^verbatim>\<open>resource_type\<close> and \<^verbatim>\<open>region\<close> only (the string
  is neither decoded nor wrapped into a list), and the handler does what it does without
  the argument.
\<close>

theorem empty_string_filters_as_omitted:
  "availability_args py resource_type region (Some (FiltersStr []))
     = Inr [(str ''resource_type'', PyStr resource_type), (str ''region'', PyStr region)]
   \<and> availability_args py resource_type region (Some (FiltersStr []))
     = availability_args py resource_type region None
   \<and> get_regional_availability py up st resource_type region (Some (FiltersStr []))
     = get_regional_availability py up st resource_type region None"
  by (simp add: get_regional_availability_def availability_args_def)

section \<open>Failures of a tool invocation\<close>




section \<open>The release of the Connection Scope\<close>

text \<open>
  C4 does not hold of the code. \<^verbatim>\<open>__aenter__\<close> closes the exit stack in a clause
  \<^verbatim>\<open>except Exception\<close> (line 65); an exception that is not an \<^verbatim>\<open>Exception\<close>, such as the
  \<^verbatim>\<open>asyncio.CancelledError\<close> of a cancelled handshake, passes that clause, and \<^verbatim>\<open>__aexit__\<close> does
  not run for a statement whose \<^verbatim>\<open>__aenter__\<close> raised. The invocation below has entered the
  transport and the session, and returns with both on the stack, nothing closed and
  \<^verbatim>\<open>aclose\<close> not called; the same handshake failing with an \<^verbatim>\<open>Exception\<close> closes both.
\<close>

theorem cancelled_acquisition_releases_nothing:
  "invoke example_interp
     \<lparr>connect = None, open_session = None, initialize = Some (CancelledError []),
      call_tool = (\<lambda>name args. Inr [])\<rparr>
     \<lparr>stack = [], opens = 0, closes = 0, aclose_calls = 0\<rparr> ListRegions
     = (Inl (CancelledError []),
        \<lparr>stack = [Session, Transport], opens = 2, closes = 0, aclose_calls = 0\<rparr>)
   \<and> invoke example_interp
     \<lparr>connect = None, open_session = None, initialize = Some (Exception (str ''refused'')),
      call_tool = (\<lambda>name args. Inr [])\<rparr>
     \<lparr>stack = [], opens = 0, closes = 0, aclose_calls = 0\<rparr> ListRegions
     = (Inl (McpError (str ''Connection Error: refused'')),
        \<lparr>stack = [], opens = 2, closes = 2, aclose_calls = 1\<rparr>)"
  by (simp add: list_regions_def async_with_def aenter_def acquire_cases init_def aclose_def
      str_def)

text \<open>
  On every other path (acquisition succeeds, or fails with an \<^verbatim>\<open>Exception\<close> at the transport,
  at the session or at the handshake; the body returns or raises), \<^verbatim>\<open>aclose\<close> of the exit stack
  runs exactly once before the invocation returns, it leaves no resource on the stack, and
  the invocation has closed as many resources as it has opened.
\<close>

lemma released_once_unless_acquisition_is_cancelled:
  assumes "\<forall>e. fst (acquire up (init st)) = Inl e \<longrightarrow> is_exception e"
  shows "aclose_calls (snd (invoke py up st req)) = Suc (aclose_calls st)
   \<and> stack (snd (invoke py up st req)) = []
   \<and> opens (snd (invoke py up st req)) + closes st
       = closes (snd (invoke py up st req)) + opens st"
  unfolding invoke_async_with by (rule async_with_released [OF assms])

end
